theory Spec2Isabelle
  imports Main "HOL-Library.Word"
begin

section \<open>The write-ahead log of kernel/log.c\<close>

text \<open>
  A shallow embedding of \<^verbatim>\<open>kernel/log.c\<close>. The global \<^verbatim>\<open>struct log logV\<close> is
  passed explicitly; the block cache, the disk and the record of what the kernel did
  (lock, sleep, wakeup and block-layer calls, in order) form a second state, the world.
  Every function returns either a fault (a panic, undefined behaviour of C, a thread
  blocked on a lock it holds itself) or its results.
\<close>

subsection \<open>Integers, blocks and configuration\<close>

text \<open>
  A C \<^verbatim>\<open>int\<close> is a 32-bit word read with \<open>sint\<close>; a \<^verbatim>\<open>uint\<close> is the same word
  read with \<open>uint\<close>, so the conversions between the two keep the bits. Signed overflow
  is undefined in C: the model computes in the integers and returns the fault
  \<open>Undefined\<close> when an intermediate result is no \<^verbatim>\<open>int\<close>.
\<close>

type_synonym cint = "32 word"

definition int32 :: "int \<Rightarrow> bool" where
  "int32 x = (- 2147483648 \<le> x \<and> x \<le> 2147483647)"

text \<open>
  \<^verbatim>\<open>buf->data\<close> is seen through the cast to \<^verbatim>\<open>struct logheader *\<close> as a row of
  32-bit cells: cell 0 is the field \<^verbatim>\<open>n\<close>, cell \<open>i + 1\<close> is \<^verbatim>\<open>block[i]\<close>.
  \<^verbatim>\<open>memmove\<close> of \<^verbatim>\<open>BSIZE\<close> bytes copies all cells. A block is addressed by the
  pair of device and block number that \<^verbatim>\<open>bread\<close> takes.
\<close>

type_synonym block = "nat \<Rightarrow> 32 word"

type_synonym addr = "32 word \<times> 32 word"

text \<open>
  Modelled from the spec: the constants of \<^verbatim>\<open>param.h\<close> and \<^verbatim>\<open>fs.h\<close>, which are not
  among the sources; the values are those of the spec's scenarios.
\<close>

definition BSIZE :: int where
  "BSIZE = 1024"

definition MAXOPBLOCKS :: int where
  "MAXOPBLOCKS = 10"

definition LOGSIZE :: int where
  "LOGSIZE = 30"

subsection \<open>The log state\<close>

text \<open>
  \<^verbatim>\<open>struct logheader\<close> and \<^verbatim>\<open>struct log\<close>. The fields carry a prefix because
  \<open>n\<close>, \<open>size\<close> and \<open>start\<close> are wanted as variable names; the spinlock has no
  field here, its acquire and release calls are events of the world.
\<close>

record logheader =
  lh_n :: cint
  lh_block :: "nat \<Rightarrow> 32 word"

record log =
  log_start :: cint
  log_size :: cint
  log_outstanding :: cint
  log_committing :: cint
  log_dev :: cint
  log_lh :: logheader

datatype fault = Panic string | Undefined string | Deadlock addr

datatype event =
    Acquire | Release | Sleep | Wakeup
  | Bread addr | Bwrite addr block | Brelse addr | Bpin addr | Bunpin addr

record world =
  disk :: "addr \<Rightarrow> block"
  cache :: "addr \<Rightarrow> block option"
  held :: "addr set"
  trace :: "event list"

definition thn :: "fault + 'a \<Rightarrow> ('a \<Rightarrow> fault + 'b) \<Rightarrow> fault + 'b" where
  "thn m f = (case m of Inl e \<Rightarrow> Inl e | Inr x \<Rightarrow> f x)"

definition emit :: "event \<Rightarrow> world \<Rightarrow> world" where
  "emit e w = w\<lparr>trace := trace w @ [e]\<rparr>"

subsection \<open>The block cache\<close>

text \<open>
  Modelled from the spec: the block cache (\<^verbatim>\<open>bio.c\<close> is not among the sources).
  \<open>read\<close> returns a locked in-memory copy, loading it from the disk when the block is
  not cached; \<open>write\<close> writes the buffer's current contents to the disk, synchronously;
  \<open>release\<close> drops the caller's hold; \<open>pin\<close> and \<open>unpin\<close> bias a reference count
  and are recorded as events. A buffer is named by its address. Reading a block whose
  buffer the caller already holds locked never returns: the fault \<open>Deadlock\<close>.
  Nothing is evicted.
\<close>

definition bdata :: "world \<Rightarrow> addr \<Rightarrow> block" where
  "bdata w a = (case cache w a of Some d \<Rightarrow> d | None \<Rightarrow> disk w a)"

definition bread :: "addr \<Rightarrow> world \<Rightarrow> fault + world" where
  "bread a w =
     (if a \<in> held w then Inl (Deadlock a)
      else Inr (w\<lparr>cache := (cache w)(a \<mapsto> bdata w a),
                  held := insert a (held w),
                  trace := trace w @ [Bread a]\<rparr>))"

definition bwrite :: "addr \<Rightarrow> world \<Rightarrow> fault + world" where
  "bwrite a w =
     Inr (w\<lparr>disk := (disk w)(a := bdata w a), trace := trace w @ [Bwrite a (bdata w a)]\<rparr>)"

definition brelse :: "addr \<Rightarrow> world \<Rightarrow> fault + world" where
  "brelse a w = Inr (w\<lparr>held := held w - {a}, trace := trace w @ [Brelse a]\<rparr>)"

definition bpin :: "addr \<Rightarrow> world \<Rightarrow> fault + world" where
  "bpin a w = Inr (emit (Bpin a) w)"

definition bunpin :: "addr \<Rightarrow> world \<Rightarrow> fault + world" where
  "bunpin a w = Inr (emit (Bunpin a) w)"

text \<open>Storing into \<^verbatim>\<open>buf->data\<close> of a buffer got from \<open>bread\<close>.\<close>

definition set_data :: "addr \<Rightarrow> block \<Rightarrow> world \<Rightarrow> world" where
  "set_data a d w = w\<lparr>cache := (cache w)(a \<mapsto> d)\<rparr>"

subsection \<open>Addresses\<close>

text \<open>
  \<^verbatim>\<open>logV.start + tail + 1\<close> is computed in \<^verbatim>\<open>int\<close> and passed as \<^verbatim>\<open>uint\<close>.
\<close>

definition head_addr :: "log \<Rightarrow> addr" where
  "head_addr l = (log_dev l, log_start l)"

definition slot_addr :: "log \<Rightarrow> nat \<Rightarrow> addr" where
  "slot_addr l tail = (log_dev l, word_of_int (sint (log_start l) + int tail + 1))"

definition home_addr :: "log \<Rightarrow> nat \<Rightarrow> addr" where
  "home_addr l tail = (log_dev l, lh_block (log_lh l) tail)"

lemma thn_cong [fundef_cong]:
  "m = m' \<Longrightarrow> (\<And>x. m' = Inr x \<Longrightarrow> f x = f' x) \<Longrightarrow> thn m f = thn m' f'"
  by (cases m') (simp_all add: thn_def)

subsection \<open>install_trans\<close>

function install_trans_loop :: "nat \<Rightarrow> cint \<Rightarrow> log \<Rightarrow> world \<Rightarrow> fault + world" where
  "install_trans_loop tail recovering l w =
     (if int tail < sint (lh_n (log_lh l)) then
        if \<not> int32 (sint (log_start l) + int tail + 1) then Inl (Undefined ''signed overflow'')
        else if LOGSIZE \<le> int tail then Inl (Undefined ''lh.block index'')
        else
          thn (bread (slot_addr l tail) w) (\<lambda>w.
          thn (bread (home_addr l tail) w) (\<lambda>w.
          thn (bwrite (home_addr l tail)
                 (set_data (home_addr l tail) (bdata w (slot_addr l tail)) w)) (\<lambda>w.
          thn (if recovering = 0 then bunpin (home_addr l tail) w else Inr w) (\<lambda>w.
          thn (brelse (slot_addr l tail) w) (\<lambda>w.
          thn (brelse (home_addr l tail) w) (\<lambda>w.
          install_trans_loop (Suc tail) recovering l w))))))
      else Inr w)"
  by pat_completeness auto
termination
  by (relation "measure (\<lambda>(tail, recovering, l, w). nat (sint (lh_n (log_lh l))) - tail)") auto

declare install_trans_loop.simps [simp del]

definition install_trans :: "cint \<Rightarrow> log \<Rightarrow> world \<Rightarrow> fault + world" where
  "install_trans recovering l w = install_trans_loop 0 recovering l w"

subsection \<open>read_head and write_head\<close>

text \<open>
  The in-memory array has \<^verbatim>\<open>LOGSIZE\<close> entries; an index beyond it is undefined
  behaviour. \<^verbatim>\<open>read_head\<close> takes \<^verbatim>\<open>n\<close> from the buffer first and then copies
  that many entries.
\<close>

function read_head_loop :: "nat \<Rightarrow> block \<Rightarrow> log \<Rightarrow> fault + log" where
  "read_head_loop i hb l =
     (if int i < sint (lh_n (log_lh l)) then
        if LOGSIZE \<le> int i then Inl (Undefined ''lh.block index'')
        else read_head_loop (Suc i) hb
               (l\<lparr>log_lh := (log_lh l)\<lparr>lh_block := (lh_block (log_lh l))(i := hb (Suc i))\<rparr>\<rparr>)
      else Inr l)"
  by pat_completeness auto
termination
  by (relation "measure (\<lambda>(i, hb, l). nat (sint (lh_n (log_lh l))) - i)") auto

declare read_head_loop.simps [simp del]

definition read_head :: "log \<Rightarrow> world \<Rightarrow> fault + (log \<times> world)" where
  "read_head l w =
     thn (bread (head_addr l) w) (\<lambda>w.
     thn (read_head_loop 0 (bdata w (head_addr l))
            (l\<lparr>log_lh := (log_lh l)\<lparr>lh_n := bdata w (head_addr l) 0\<rparr>\<rparr>)) (\<lambda>l'.
     thn (brelse (head_addr l) w) (\<lambda>w.
     Inr (l', w))))"

function write_head_loop :: "nat \<Rightarrow> log \<Rightarrow> block \<Rightarrow> fault + block" where
  "write_head_loop i l hb =
     (if int i < sint (lh_n (log_lh l)) then
        if LOGSIZE \<le> int i then Inl (Undefined ''lh.block index'')
        else write_head_loop (Suc i) l (hb(Suc i := lh_block (log_lh l) i))
      else Inr hb)"
  by pat_completeness auto
termination
  by (relation "measure (\<lambda>(i, l, hb). nat (sint (lh_n (log_lh l))) - i)") auto

declare write_head_loop.simps [simp del]

definition write_head :: "log \<Rightarrow> world \<Rightarrow> fault + world" where
  "write_head l w =
     thn (bread (head_addr l) w) (\<lambda>w.
     thn (write_head_loop 0 l ((bdata w (head_addr l))(0 := lh_n (log_lh l)))) (\<lambda>hb.
     thn (bwrite (head_addr l) (set_data (head_addr l) hb w)) (\<lambda>w.
     brelse (head_addr l) w)))"

subsection \<open>recover_from_log and initlog\<close>

definition recover_from_log :: "log \<Rightarrow> world \<Rightarrow> fault + (log \<times> world)" where
  "recover_from_log l w =
     thn (read_head l w) (\<lambda>(l, w).
     thn (install_trans 1 l w) (\<lambda>w.
     thn (write_head (l\<lparr>log_lh := (log_lh l)\<lparr>lh_n := 0\<rparr>\<rparr>) w) (\<lambda>w.
     Inr (l\<lparr>log_lh := (log_lh l)\<lparr>lh_n := 0\<rparr>\<rparr>, w))))"

text \<open>
  Modelled from the spec: the two fields of \<^verbatim>\<open>struct superblock\<close> (\<^verbatim>\<open>fs.h\<close>) that
  \<^verbatim>\<open>initlog\<close> reads. \<^verbatim>\<open>sizeof(struct logheader)\<close> is four bytes for \<^verbatim>\<open>n\<close> and
  four for each entry of \<^verbatim>\<open>block\<close>. \<^verbatim>\<open>initlock\<close> only names the lock.
\<close>

record superblock =
  logstart :: "32 word"
  nlog :: "32 word"

definition sizeof_logheader :: int where
  "sizeof_logheader = 4 * (LOGSIZE + 1)"

definition initlog :: "cint \<Rightarrow> superblock \<Rightarrow> log \<Rightarrow> world \<Rightarrow> fault + (log \<times> world)" where
  "initlog dev sb l w =
     (if BSIZE \<le> sizeof_logheader then Inl (Panic ''initlog: too big logheader'')
      else recover_from_log (l\<lparr>log_start := logstart sb, log_size := nlog sb, log_dev := dev\<rparr>) w)"

subsection \<open>begin_op and end_op\<close>

text \<open>
  \<^verbatim>\<open>sleep\<close> releases the lock and blocks; when the caller runs again it holds the lock
  and sees whatever the other threads have made of \<^verbatim>\<open>logV\<close>. The list \<open>wakes\<close> gives
  these states, one for each time the sleeper is woken. A call that is still asleep when
  the list ends has not returned: \<open>Asleep\<close>.
\<close>

datatype 'a blocking = Returned 'a | Asleep

fun begin_op_loop :: "log list \<Rightarrow> log \<Rightarrow> world \<Rightarrow> fault + (log blocking \<times> world)"
and begin_op_sleep :: "log list \<Rightarrow> world \<Rightarrow> fault + (log blocking \<times> world)" where
  "begin_op_loop wakes l w =
     (if log_committing l \<noteq> 0 then begin_op_sleep wakes (emit Sleep w)
      else if \<not> int32 (sint (log_outstanding l) + 1)
              \<or> \<not> int32 ((sint (log_outstanding l) + 1) * MAXOPBLOCKS)
              \<or> \<not> int32 (sint (lh_n (log_lh l)) + (sint (log_outstanding l) + 1) * MAXOPBLOCKS)
           then Inl (Undefined ''signed overflow'')
      else if sint (lh_n (log_lh l)) + (sint (log_outstanding l) + 1) * MAXOPBLOCKS > LOGSIZE
           then begin_op_sleep wakes (emit Sleep w)
      else Inr (Returned (l\<lparr>log_outstanding := log_outstanding l + 1\<rparr>), emit Release w))"
| "begin_op_sleep [] w = Inr (Asleep, w)"
| "begin_op_sleep (l # wakes) w = begin_op_loop wakes l w"

definition begin_op :: "log list \<Rightarrow> log \<Rightarrow> world \<Rightarrow> fault + (log blocking \<times> world)" where
  "begin_op wakes l w = begin_op_loop wakes l (emit Acquire w)"

subsection \<open>write_log and commit\<close>

function write_log_loop :: "nat \<Rightarrow> log \<Rightarrow> world \<Rightarrow> fault + world" where
  "write_log_loop tail l w =
     (if int tail < sint (lh_n (log_lh l)) then
        if \<not> int32 (sint (log_start l) + int tail + 1) then Inl (Undefined ''signed overflow'')
        else if LOGSIZE \<le> int tail then Inl (Undefined ''lh.block index'')
        else
          thn (bread (slot_addr l tail) w) (\<lambda>w.
          thn (bread (home_addr l tail) w) (\<lambda>w.
          thn (bwrite (slot_addr l tail)
                 (set_data (slot_addr l tail) (bdata w (home_addr l tail)) w)) (\<lambda>w.
          thn (brelse (home_addr l tail) w) (\<lambda>w.
          thn (brelse (slot_addr l tail) w) (\<lambda>w.
          write_log_loop (Suc tail) l w)))))
      else Inr w)"
  by pat_completeness auto
termination
  by (relation "measure (\<lambda>(tail, l, w). nat (sint (lh_n (log_lh l))) - tail)") auto

declare write_log_loop.simps [simp del]

definition write_log :: "log \<Rightarrow> world \<Rightarrow> fault + world" where
  "write_log l w = write_log_loop 0 l w"

definition commit :: "log \<Rightarrow> world \<Rightarrow> fault + (log \<times> world)" where
  "commit l w =
     (if 0 < sint (lh_n (log_lh l)) then
        thn (write_log l w) (\<lambda>w.
        thn (write_head l w) (\<lambda>w.
        thn (install_trans 0 l w) (\<lambda>w.
        thn (write_head (l\<lparr>log_lh := (log_lh l)\<lparr>lh_n := 0\<rparr>\<rparr>) w) (\<lambda>w.
        Inr (l\<lparr>log_lh := (log_lh l)\<lparr>lh_n := 0\<rparr>\<rparr>, w)))))
      else Inr (l, w))"

text \<open>
  \<^verbatim>\<open>end_op\<close>: between the release of the lock and \<^verbatim>\<open>commit\<close> no other thread can
  change \<^verbatim>\<open>logV\<close>, since \<^verbatim>\<open>committing\<close> keeps \<^verbatim>\<open>begin_op\<close> asleep.
\<close>

definition end_op :: "log \<Rightarrow> world \<Rightarrow> fault + (log \<times> world)" where
  "end_op l w =
     (if \<not> int32 (sint (log_outstanding l) - 1) then Inl (Undefined ''signed overflow'')
      else if log_committing l \<noteq> 0 then Inl (Panic ''logV.committing'')
      else if log_outstanding l - 1 = 0 then
        thn (commit (l\<lparr>log_outstanding := log_outstanding l - 1, log_committing := 1\<rparr>)
               (emit Release (emit Acquire w))) (\<lambda>(l, w).
        Inr (l\<lparr>log_committing := 0\<rparr>, emit Release (emit Wakeup (emit Acquire w))))
      else Inr (l\<lparr>log_outstanding := log_outstanding l - 1\<rparr>,
                emit Release (emit Wakeup (emit Acquire w))))"

subsection \<open>log_write\<close>

text \<open>
  The argument stands for \<^verbatim>\<open>struct buf *b\<close>: the address of the buffer, whose second
  component is \<^verbatim>\<open>b->blockno\<close>. The scan runs after the check \<^verbatim>\<open>n < LOGSIZE\<close>, so
  its index stays inside the array. \<open>||\<close> evaluates \<^verbatim>\<open>logV.size - 1\<close> only when its
  left operand is false.
\<close>

function log_write_scan :: "nat \<Rightarrow> 32 word \<Rightarrow> log \<Rightarrow> nat" where
  "log_write_scan i blockno l =
     (if int i < sint (lh_n (log_lh l)) then
        if lh_block (log_lh l) i = blockno then i
        else log_write_scan (Suc i) blockno l
      else i)"
  by pat_completeness auto
termination
  by (relation "measure (\<lambda>(i, blockno, l). nat (sint (lh_n (log_lh l))) - i)") auto

declare log_write_scan.simps [simp del]

definition log_write :: "addr \<Rightarrow> log \<Rightarrow> world \<Rightarrow> fault + (log \<times> world)" where
  "log_write b l w =
     (if LOGSIZE \<le> sint (lh_n (log_lh l)) then Inl (Panic ''too big a transaction'')
      else if \<not> int32 (sint (log_size l) - 1) then Inl (Undefined ''signed overflow'')
      else if sint (log_size l) - 1 \<le> sint (lh_n (log_lh l))
           then Inl (Panic ''too big a transaction'')
      else if sint (log_outstanding l) < 1 then Inl (Panic ''log_write outside of trans'')
      else
        let i = log_write_scan 0 (snd b) l;
            l' = l\<lparr>log_lh := (log_lh l)\<lparr>lh_block := (lh_block (log_lh l))(i := snd b)\<rparr>\<rparr>
        in if int i = sint (lh_n (log_lh l)) then
             thn (bpin b (emit Acquire w)) (\<lambda>w.
             Inr (l'\<lparr>log_lh := (log_lh l')\<lparr>lh_n := lh_n (log_lh l) + 1\<rparr>\<rparr>, emit Release w))
           else Inr (l', emit Release (emit Acquire w)))"

section \<open>Auxiliary definitions\<close>

subsection \<open>Reading the record of calls\<close>

text \<open>
  The buffers pinned and unpinned, the blocks written, and whether a stretch of the record
  holds block-layer calls only. \<open>replay\<close> applies the writes of a stretch, in order, to
  a disk: the only function of the block layer that changes the disk is \<open>bwrite\<close>, and
  it records what it writes (lemmas \<open>commit_world_replay\<close> and
  \<open>recover_world_replay\<close> below).
\<close>

fun blk_event :: "event \<Rightarrow> bool" where
  "blk_event (Bread a) = True"
| "blk_event (Bwrite a d) = True"
| "blk_event (Brelse a) = True"
| "blk_event (Bpin a) = True"
| "blk_event (Bunpin a) = True"
| "blk_event e = False"

definition io_only :: "event list \<Rightarrow> bool" where
  "io_only es = list_all blk_event es"

fun pinned :: "event list \<Rightarrow> addr list" where
  "pinned [] = []"
| "pinned (Bpin a # es) = a # pinned es"
| "pinned (e # es) = pinned es"

fun unpinned :: "event list \<Rightarrow> addr list" where
  "unpinned [] = []"
| "unpinned (Bunpin a # es) = a # unpinned es"
| "unpinned (e # es) = unpinned es"

fun written :: "event list \<Rightarrow> addr set" where
  "written [] = {}"
| "written (Bwrite a b # es) = insert a (written es)"
| "written (e # es) = written es"

fun replay :: "event list \<Rightarrow> (addr \<Rightarrow> block) \<Rightarrow> (addr \<Rightarrow> block)" where
  "replay [] d = d"
| "replay (Bwrite a b # es) d = replay es (d(a := b))"
| "replay (e # es) d = replay es d"

subsection \<open>The transaction in memory\<close>

text \<open>
  \<open>logged_n\<close> is the number of iterations of a loop
  \<^verbatim>\<open>for (tail = 0; tail < logV.lh.n; tail++)\<close>; \<open>logged\<close> is \<open>lh.block[0..lh.n)\<close>,
  \<open>homes\<close> and \<open>slots\<close> are the addresses of the logged blocks and of their log slots.
  \<open>log_sound\<close> collects what the spec asks of a log state: \<open>lh.n \<le> LOGSIZE\<close> (I3), slot
  numbers that are C integers, and home blocks outside the log region, which only the log
  writes. \<open>clear_n\<close> is the assignment \<^verbatim>\<open>logV.lh.n = 0\<close>. \<open>log_writes\<close> is a caller that
  issues one \<^verbatim>\<open>log_write\<close> after the other and stops at the first fault.
\<close>

definition logged_n :: "log \<Rightarrow> nat" where
  "logged_n l = nat (sint (lh_n (log_lh l)))"

definition logged :: "log \<Rightarrow> 32 word list" where
  "logged l = map (lh_block (log_lh l)) [0..<logged_n l]"

definition homes :: "log \<Rightarrow> addr list" where
  "homes l = map (home_addr l) [0..<logged_n l]"

definition slots :: "log \<Rightarrow> addr list" where
  "slots l = map (slot_addr l) [0..<logged_n l]"

definition log_sound :: "log \<Rightarrow> bool" where
  "log_sound l \<longleftrightarrow>
     sint (lh_n (log_lh l)) \<le> LOGSIZE \<and>
     int32 (sint (log_start l) + int (logged_n l)) \<and>
     set (homes l) \<inter> set (head_addr l # slots l) = {}"

definition clear_n :: "log \<Rightarrow> log" where
  "clear_n l = l\<lparr>log_lh := (log_lh l)\<lparr>lh_n := 0\<rparr>\<rparr>"

fun log_writes :: "addr list \<Rightarrow> log \<Rightarrow> world \<Rightarrow> fault + (log \<times> world)" where
  "log_writes [] l w = Inr (l, w)"
| "log_writes (b # bs) l w = thn (log_write b l w) (\<lambda>(l, w). log_writes bs l w)"

subsection \<open>Admission\<close>

text \<open>
  The admission test of \<^verbatim>\<open>begin_op\<close> in the integers, and the condition under which C
  gives the test's arithmetic a value.
\<close>

definition admits :: "log \<Rightarrow> bool" where
  "admits l \<longleftrightarrow> log_committing l = 0 \<and>
     sint (lh_n (log_lh l)) + (sint (log_outstanding l) + 1) * MAXOPBLOCKS \<le> LOGSIZE"

definition reservation_defined :: "log \<Rightarrow> bool" where
  "reservation_defined l \<longleftrightarrow>
     int32 (sint (log_outstanding l) + 1) \<and>
     int32 ((sint (log_outstanding l) + 1) * MAXOPBLOCKS) \<and>
     int32 (sint (lh_n (log_lh l)) + (sint (log_outstanding l) + 1) * MAXOPBLOCKS)"

subsection \<open>The loops, one iteration at a time\<close>

text \<open>
  \<open>loop_guard\<close> collects the faults of one iteration of \<^verbatim>\<open>install_trans\<close> or
  \<^verbatim>\<open>write_log\<close>, in the order in which the code meets them; \<open>install_step\<close> and
  \<open>write_log_step\<close> are what an iteration does to the world when there is none, and
  \<open>install_events\<close> and \<open>write_log_events\<close> the calls it records. \<open>head_block\<close> is the
  header block that \<^verbatim>\<open>write_head\<close> builds in a buffer, \<open>read_header\<close> the in-memory
  header that \<^verbatim>\<open>read_head\<close> builds from one; \<open>write_head_step\<close> and \<open>read_head_step\<close>
  are what the two do to the world. The lemmas of the section on loops prove that the
  code computes these.
\<close>

definition loop_guard :: "log \<Rightarrow> nat \<Rightarrow> world \<Rightarrow> fault option" where
  "loop_guard l t w =
     (if \<not> int32 (sint (log_start l) + int t + 1) then Some (Undefined ''signed overflow'')
      else if LOGSIZE \<le> int t then Some (Undefined ''lh.block index'')
      else if slot_addr l t \<in> held w then Some (Deadlock (slot_addr l t))
      else if home_addr l t \<in> insert (slot_addr l t) (held w) then Some (Deadlock (home_addr l t))
      else None)"

definition install_events :: "cint \<Rightarrow> log \<Rightarrow> nat \<Rightarrow> block \<Rightarrow> event list" where
  "install_events recovering l t d =
     [Bread (slot_addr l t), Bread (home_addr l t), Bwrite (home_addr l t) d] @
     (if recovering = 0 then [Bunpin (home_addr l t)] else []) @
     [Brelse (slot_addr l t), Brelse (home_addr l t)]"

definition install_step :: "cint \<Rightarrow> log \<Rightarrow> nat \<Rightarrow> world \<Rightarrow> world" where
  "install_step recovering l t w =
     w\<lparr>disk := (disk w)(home_addr l t := bdata w (slot_addr l t)),
       cache := (cache w)(slot_addr l t \<mapsto> bdata w (slot_addr l t),
                          home_addr l t \<mapsto> bdata w (slot_addr l t)),
       trace := trace w @ install_events recovering l t (bdata w (slot_addr l t))\<rparr>"

definition write_log_events :: "log \<Rightarrow> nat \<Rightarrow> block \<Rightarrow> event list" where
  "write_log_events l t d =
     [Bread (slot_addr l t), Bread (home_addr l t), Bwrite (slot_addr l t) d,
      Brelse (home_addr l t), Brelse (slot_addr l t)]"

definition write_log_step :: "log \<Rightarrow> nat \<Rightarrow> world \<Rightarrow> world" where
  "write_log_step l t w =
     w\<lparr>disk := (disk w)(slot_addr l t := bdata w (home_addr l t)),
       cache := (cache w)(home_addr l t \<mapsto> bdata w (home_addr l t),
                          slot_addr l t \<mapsto> bdata w (home_addr l t)),
       trace := trace w @ write_log_events l t (bdata w (home_addr l t))\<rparr>"

definition head_block :: "log \<Rightarrow> block \<Rightarrow> block" where
  "head_block l hb =
     (\<lambda>j. if j = 0 then lh_n (log_lh l)
          else if j \<le> logged_n l then lh_block (log_lh l) (j - 1)
          else hb j)"

definition head_fits :: "cint \<Rightarrow> bool" where
  "head_fits k \<longleftrightarrow> sint k \<le> LOGSIZE"

definition head_events :: "log \<Rightarrow> block \<Rightarrow> event list" where
  "head_events l b = [Bread (head_addr l), Bwrite (head_addr l) b, Brelse (head_addr l)]"

definition write_head_step :: "log \<Rightarrow> world \<Rightarrow> world" where
  "write_head_step l w =
     w\<lparr>disk := (disk w)(head_addr l := head_block l (bdata w (head_addr l))),
       cache := (cache w)(head_addr l \<mapsto> head_block l (bdata w (head_addr l))),
       trace := trace w @ [Bread (head_addr l),
         Bwrite (head_addr l) (head_block l (bdata w (head_addr l))), Brelse (head_addr l)]\<rparr>"

definition read_header :: "log \<Rightarrow> block \<Rightarrow> log" where
  "read_header l hb =
     l\<lparr>log_lh := \<lparr>lh_n = hb 0,
         lh_block = (\<lambda>j. if j < nat (sint (hb 0)) then hb (Suc j) else lh_block (log_lh l) j)\<rparr>\<rparr>"

definition read_head_step :: "log \<Rightarrow> world \<Rightarrow> world" where
  "read_head_step l w =
     w\<lparr>cache := (cache w)(head_addr l \<mapsto> bdata w (head_addr l)),
       trace := trace w @ [Bread (head_addr l), Brelse (head_addr l)]\<rparr>"

text \<open>The worlds that \<^verbatim>\<open>commit\<close> and \<^verbatim>\<open>recover_from_log\<close> leave when they return.\<close>

definition commit_world :: "log \<Rightarrow> world \<Rightarrow> world" where
  "commit_world l w =
     write_head_step (clear_n l)
       (fold (install_step 0 l) [0..<logged_n l]
          (write_head_step l (fold (write_log_step l) [0..<logged_n l] w)))"

definition recover_world :: "log \<Rightarrow> world \<Rightarrow> world" where
  "recover_world l w =
     (let l1 = read_header l (bdata w (head_addr l))
      in write_head_step (clear_n l1)
           (fold (install_step 1 l1) [0..<logged_n l1] (read_head_step l w)))"

subsection \<open>The commit sequence of the spec\<close>

text \<open>
  Section 4.5 of the spec, as the calls to the block layer it prescribes, in its order:
  for each logged block the write of the cached contents of the home block to its log
  slot; the header write with \<open>n = lh.n\<close>; for each logged block the write of the same
  contents to the home block, with the unpin; the header write with \<open>n = 0\<close>.
\<close>

definition commit_events :: "log \<Rightarrow> world \<Rightarrow> event list" where
  "commit_events l w =
     concat (map (\<lambda>i. write_log_events l i (bdata w (home_addr l i))) [0..<logged_n l]) @
     head_events l (head_block l (bdata w (head_addr l))) @
     concat (map (\<lambda>i. install_events 0 l i (bdata w (home_addr l i))) [0..<logged_n l]) @
     head_events l (head_block (clear_n l) (head_block l (bdata w (head_addr l))))"

subsection \<open>Crashes\<close>

text \<open>
  A crash stops the machine between two calls to the block layer. What survives is the
  disk: the disk of before with the writes of the calls made so far, \<open>crash_disk\<close>. The
  cache, the locks and \<^verbatim>\<open>logV\<close> are lost: \<open>reboot\<close> is the world on the next boot, and
  \<open>boot\<close> runs \<^verbatim>\<open>initlog\<close> in it for the log region of \<open>l\<close>, from contents \<open>lb\<close> of
  \<^verbatim>\<open>logV\<close>. \<open>committed\<close> says that a header write is among the calls made: the first
  header write of \<^verbatim>\<open>commit\<close> is its commit point. \<open>atomic_outcome\<close> is what property P2
  asks of the home blocks of the transaction: all as committed (the contents of the
  buffers when \<^verbatim>\<open>commit\<close> began) or all as on the disk of before.

  \<open>settled\<close> and \<open>pending\<close> are the two kinds of disk a crash can leave: a header that
  commits nothing, with the home blocks equal to \<open>v\<close>; or the header of the transaction,
  with the log slots holding \<open>v\<close> for their home blocks.
\<close>

definition reboot :: "(addr \<Rightarrow> block) \<Rightarrow> world" where
  "reboot d = \<lparr>disk = d, cache = (\<lambda>a. None), held = {}, trace = []\<rparr>"

definition boot :: "log \<Rightarrow> log \<Rightarrow> (addr \<Rightarrow> block) \<Rightarrow> fault + (log \<times> world)" where
  "boot l lb d =
     initlog (log_dev l) \<lparr>logstart = log_start l, nlog = log_size l\<rparr> lb (reboot d)"

definition boot_log :: "log \<Rightarrow> log \<Rightarrow> log" where
  "boot_log l lb = lb\<lparr>log_start := log_start l, log_size := log_size l, log_dev := log_dev l\<rparr>"

definition crash_disk :: "event list \<Rightarrow> nat \<Rightarrow> (addr \<Rightarrow> block) \<Rightarrow> (addr \<Rightarrow> block)" where
  "crash_disk es k d = replay (take k es) d"

definition committed :: "log \<Rightarrow> event list \<Rightarrow> bool" where
  "committed l es \<longleftrightarrow> head_addr l \<in> written es"

definition atomic_outcome :: "log \<Rightarrow> world \<Rightarrow> bool \<Rightarrow> (addr \<Rightarrow> block) \<Rightarrow> bool" where
  "atomic_outcome l w c d \<longleftrightarrow>
     (if c then (\<forall>h \<in> set (homes l). d h = bdata w h)
      else (\<forall>h \<in> set (homes l). d h = disk w h))"

definition settled :: "log \<Rightarrow> (addr \<Rightarrow> block) \<Rightarrow> (addr \<Rightarrow> block) \<Rightarrow> bool" where
  "settled l v d \<longleftrightarrow>
     sint (d (head_addr l) 0) \<le> 0 \<and> (\<forall>h \<in> set (homes l). d h = v h)"

definition pending :: "log \<Rightarrow> (addr \<Rightarrow> block) \<Rightarrow> (addr \<Rightarrow> block) \<Rightarrow> bool" where
  "pending l v d \<longleftrightarrow>
     d (head_addr l) 0 = lh_n (log_lh l) \<and>
     (\<forall>i < logged_n l. d (head_addr l) (Suc i) = lh_block (log_lh l) i \<and>
                       d (slot_addr l i) = v (home_addr l i))"

subsection \<open>States of the spec's scenarios\<close>

text \<open>
  The log region starts at block 2 of device 1 and has 31 blocks; entry \<open>i\<close> of the
  header names home block \<open>100 + i\<close>. \<open>ex_log k out\<close> has \<open>k\<close> logged blocks and
  \<open>out\<close> system calls in flight. \<open>ex_world\<close> is a zeroed disk under an empty cache;
  in \<open>ex_tx_world\<close> the buffers of blocks 100 and 101 have been modified. On
  \<open>ex_disk\<close> the header commits block 100, whose new contents are in log slot 1; on
  \<open>ex_stale\<close> the header commits nothing, and its third cell is left over from an
  earlier transaction.
\<close>

definition ex_world :: world where
  "ex_world = \<lparr>disk = (\<lambda>a i. 0), cache = (\<lambda>a. None), held = {}, trace = []\<rparr>"

definition ex_tx_world :: world where
  "ex_tx_world = \<lparr>disk = (\<lambda>a i. 0),
     cache = (\<lambda>a. None)((1, 100) \<mapsto> (\<lambda>i. 170), (1, 101) \<mapsto> (\<lambda>i. 187)),
     held = {}, trace = []\<rparr>"

definition ex_log :: "cint \<Rightarrow> cint \<Rightarrow> log" where
  "ex_log k out = \<lparr>log_start = 2, log_size = 31, log_outstanding = out, log_committing = 0,
     log_dev = 1, log_lh = \<lparr>lh_n = k, lh_block = (\<lambda>i. 100 + of_nat i)\<rparr>\<rparr>"

definition ex_disk :: "addr \<Rightarrow> block" where
  "ex_disk = (\<lambda>a i. 0)
     ((1, 2) := (\<lambda>i. if i = 0 then 1 else if i = 1 then 100 else 0),
      (1, 3) := (\<lambda>i. 7))"


section \<open>Properties\<close>

subsection \<open>Integers, sequencing and lists\<close>

lemma int32_sint: "int32 (sint (x :: 32 word))"
  unfolding int32_def using sint_ge [of x] sint_lt [of x] by simp

lemma sint_of_int32: "int32 k \<Longrightarrow> sint (word_of_int k :: 32 word) = k"
  unfolding int32_def by (simp add: sint_sbintrunc' signed_take_bit_int_eq_self)

lemma sint_plus1: "int32 (sint (x :: 32 word) + 1) \<Longrightarrow> sint (x + 1) = sint x + 1"
  unfolding int32_def by (simp add: sint_word_add signed_take_bit_int_eq_self)


lemma sint_eq_1: "sint (x :: 32 word) = 1 \<Longrightarrow> x = 1"
proof -
  assume "sint x = 1"
  then have "word_of_int (sint x) = (word_of_int 1 :: 32 word)" by simp
  then show "x = 1" by simp
qed

lemma sint_eq_0: "sint (x :: 32 word) = 0 \<Longrightarrow> x = 0"
proof -
  assume "sint x = 0"
  then have "word_of_int (sint x) = (word_of_int 0 :: 32 word)" by simp
  then show "x = 0" by simp
qed

lemma thn_Inr [simp]: "thn (Inr x) f = f x"
  by (simp add: thn_def)

lemma thn_Inl [simp]: "thn (Inl e) f = Inl e"
  by (simp add: thn_def)

lemma thn_eq_Inr: "thn m f = Inr y \<longleftrightarrow> (\<exists>x. m = Inr x \<and> f x = Inr y)"
  by (cases m) simp_all

lemma upt1: "[0..<1] = [0]"
  by (simp add: upt_rec)

lemma upt2: "[0..<2] = [0, 1]"
  by (simp add: upt_rec)

lemma take_reaches:
  "x \<in> set (take k (xs @ ys)) \<Longrightarrow> x \<notin> set xs \<Longrightarrow> take k (xs @ ys) = xs @ take (k - length xs) ys"
  by (cases "k \<le> length xs") (auto dest: in_set_takeD)

lemma take_append_Cons_cases:
  "take k (p @ x # r) = take k p \<and> k \<le> length p \<or>
   take k (p @ x # r) = p @ x # take (k - length p - 1) r"
  by (cases "k \<le> length p") (auto simp: take_Cons')

subsection \<open>The record of calls\<close>

lemma pinned_append [simp]: "pinned (xs @ ys) = pinned xs @ pinned ys"
  by (induction xs rule: pinned.induct) simp_all

lemma unpinned_append [simp]: "unpinned (xs @ ys) = unpinned xs @ unpinned ys"
  by (induction xs rule: unpinned.induct) simp_all

lemma io_only_append [simp]: "io_only (xs @ ys) \<longleftrightarrow> io_only xs \<and> io_only ys"
  by (simp add: io_only_def)

lemma written_append [simp]: "written (xs @ ys) = written xs \<union> written ys"
  by (induction xs rule: written.induct) simp_all

lemma written_iff: "a \<in> written es \<longleftrightarrow> (\<exists>b. Bwrite a b \<in> set es)"
  by (induction es rule: written.induct) auto

lemma written_take: "written (take k es) \<subseteq> written es"
  using in_set_takeD by (fastforce simp: written_iff)

lemma replay_append [simp]: "replay (xs @ ys) d = replay ys (replay xs d)"
proof (induction xs arbitrary: d)
  case (Cons e xs)
  show ?case
  proof (cases e)
    case (Bwrite a b)
    show ?thesis
      unfolding Bwrite by (simp only: append_Cons replay.simps) (rule Cons.IH)
  qed (simp_all add: Cons)
qed simp

lemma replay_frame: "a \<notin> written es \<Longrightarrow> replay es d a = d a"
proof (induction es arbitrary: d)
  case (Cons e es)
  show ?case
  proof (cases e)
    case (Bwrite a' b)
    then have n: "a \<noteq> a'" and w: "a \<notin> written es" using Cons.prems by auto
    have "replay (e # es) d a = replay es (d(a' := b)) a"
      by (simp only: Bwrite replay.simps)
    also have "\<dots> = (d(a' := b)) a" using w by (rule Cons.IH)
    also have "\<dots> = d a" using n by simp
    finally show ?thesis .
  qed (use Cons in simp_all)
qed simp

lemma replay_val:
  "\<forall>a b. Bwrite a b \<in> set es \<longrightarrow> b = val a \<Longrightarrow>
     replay es d a = (if a \<in> written es then val a else d a)"
proof (induction es arbitrary: d)
  case Nil
  show ?case by simp
next
  case (Cons e es)
  have p: "\<forall>a b. Bwrite a b \<in> set es \<longrightarrow> b = val a"
    using Cons.prems by (meson list.set_intros(2))
  show ?case
  proof (cases e)
    case (Bwrite a' b)
    have v: "b = val a'" using Cons.prems unfolding Bwrite by (meson list.set_intros(1))
    have "replay (e # es) d a = replay es (d(a' := b)) a"
      by (simp only: Bwrite replay.simps)
    also have "\<dots> = (if a \<in> written es then val a else (d(a' := b)) a)"
      using p by (rule Cons.IH)
    also have "\<dots> = (if a \<in> written (e # es) then val a else d a)"
      using v by (simp add: Bwrite)
    finally show ?thesis .
  qed (use Cons.IH [OF p] in simp_all)
qed

lemma install_events_facts [simp]:
  "io_only (install_events r l t d)"
  "pinned (install_events r l t d) = []"
  "unpinned (install_events r l t d) = (if r = 0 then [home_addr l t] else [])"
  by (simp_all add: install_events_def io_only_def)

lemma write_log_events_facts [simp]:
  "io_only (write_log_events l t d)"
  "pinned (write_log_events l t d) = []"
  "unpinned (write_log_events l t d) = []"
  by (simp_all add: write_log_events_def io_only_def)

lemma written_install_events [simp]: "written (install_events r l t d) = {home_addr l t}"
  by (simp add: install_events_def)

lemma written_write_log_events [simp]: "written (write_log_events l t c) = {slot_addr l t}"
  by (simp add: write_log_events_def)

lemma written_head_events [simp]: "written (head_events l b) = {head_addr l}"
  by (simp add: head_events_def)

lemma written_concat_install [simp]:
  "written (concat (map (\<lambda>i. install_events r l i (c i)) ts)) = home_addr l ` set ts"
  by (induction ts) auto

lemma written_concat_write_log [simp]:
  "written (concat (map (\<lambda>i. write_log_events l i (c i)) ts)) = slot_addr l ` set ts"
  by (induction ts) auto

lemma Bwrite_in_concat_install:
  "Bwrite a b \<in> set (concat (map (\<lambda>i. install_events r l i (c i)) ts)) \<Longrightarrow>
     \<exists>i \<in> set ts. a = home_addr l i \<and> b = c i"
  by (auto simp: install_events_def split: if_splits)

lemma replay_install_events [simp]:
  "replay (install_events r l t c) d = d(home_addr l t := c)"
  by (simp add: install_events_def)

lemma replay_write_log_events [simp]:
  "replay (write_log_events l t c) d = d(slot_addr l t := c)"
  by (simp add: write_log_events_def)

lemma replay_head_events [simp]:
  "replay (head_events l b) d = d(head_addr l := b)"
  by (simp add: head_events_def)

lemma head_events_cong: "head_addr l' = head_addr l \<Longrightarrow> head_events l' = head_events l"
  by (simp add: head_events_def fun_eq_iff)

subsection \<open>The loops as folds\<close>

text \<open>
  Each loop of the code returns exactly when no iteration faults, and then it has folded
  its step over the indices below \<open>lh.n\<close>. From here on the code is reasoned about
  through these characterisations.
\<close>

lemma loop_fold:
  fixes f :: "nat \<Rightarrow> 'a \<Rightarrow> fault + 'a"
  assumes eq: "\<And>t w. f t w =
      (if t < n then (case guard t w of Some e \<Rightarrow> Inl e | None \<Rightarrow> f (Suc t) (step t w))
       else Inr w)"
  shows "f t w = Inr w' \<longleftrightarrow>
      (w' = fold step [t..<n] w \<and> (\<forall>i. t \<le> i \<and> i < n \<longrightarrow> guard i (fold step [t..<i] w) = None))"
proof (induction "n - t" arbitrary: t w)
  case 0
  then have "\<not> t < n" by simp
  then show ?case by (subst eq) auto
next
  case (Suc k)
  then have t: "t < n" and k: "k = n - Suc t" by simp_all
  have up: "[t..<n] = t # [Suc t..<n]" using t by (simp add: upt_conv_Cons)
  show ?case
  proof (cases "guard t w")
    case None
    have "f t w = f (Suc t) (step t w)" using t None by (subst eq) simp
    also have "\<dots> = Inr w' \<longleftrightarrow> (w' = fold step [Suc t..<n] (step t w) \<and>
        (\<forall>i. Suc t \<le> i \<and> i < n \<longrightarrow> guard i (fold step [Suc t..<i] (step t w)) = None))"
      using Suc.hyps(1) [OF k] .
    also have "\<dots> \<longleftrightarrow> (w' = fold step [t..<n] w \<and>
        (\<forall>i. t \<le> i \<and> i < n \<longrightarrow> guard i (fold step [t..<i] w) = None))"
    proof -
      have a: "fold step [Suc t..<i] (step t w) = fold step [t..<i] w" if "t < i" for i
        using that by (simp add: upt_conv_Cons)
      have g0: "guard t (fold step [t..<t] w) = None" using None by simp
      have b: "(\<forall>i. t \<le> i \<and> i < n \<longrightarrow> guard i (fold step [t..<i] w) = None) \<longleftrightarrow>
          (\<forall>i. Suc t \<le> i \<and> i < n \<longrightarrow> guard i (fold step [t..<i] w) = None)"
      proof (intro iffI allI impI)
        fix i
        assume h: "\<forall>i. Suc t \<le> i \<and> i < n \<longrightarrow> guard i (fold step [t..<i] w) = None"
          and i: "t \<le> i \<and> i < n"
        show "guard i (fold step [t..<i] w) = None"
        proof (cases "i = t")
          case True
          then show ?thesis using g0 by simp
        next
          case False
          then have "Suc t \<le> i \<and> i < n" using i by simp
          then show ?thesis using h by blast
        qed
      qed simp
      show ?thesis unfolding b using a t by (auto simp: Suc_le_eq)
    qed
    finally show ?thesis .
  next
    case (Some e)
    have "f t w = Inl e" using t Some by (subst eq) simp
    moreover have "\<not> (\<forall>i. t \<le> i \<and> i < n \<longrightarrow> guard i (fold step [t..<i] w) = None)"
      using t Some by (auto intro!: exI [of _ t])
    ultimately show ?thesis by simp
  qed
qed

lemma install_trans_loop_unfold:
  "install_trans_loop t r l w =
     (if t < logged_n l then
        (case loop_guard l t w of Some e \<Rightarrow> Inl e
         | None \<Rightarrow> install_trans_loop (Suc t) r l (install_step r l t w))
      else Inr w)"
proof (cases "t < logged_n l")
  case False
  then show ?thesis
    by (subst install_trans_loop.simps) (simp add: logged_n_def zless_nat_eq_int_zless)
next
  case True
  then have t: "int t < sint (lh_n (log_lh l))"
    by (simp add: logged_n_def zless_nat_eq_int_zless)
  show ?thesis
  proof (cases "loop_guard l t w")
    case (Some e)
    then show ?thesis
      using True t
      by (subst install_trans_loop.simps)
        (auto simp: loop_guard_def bread_def split: if_splits)
  next
    case None
    then have g: "int32 (sint (log_start l) + int t + 1)" "\<not> LOGSIZE \<le> int t"
        "slot_addr l t \<notin> held w" "home_addr l t \<notin> held w" "home_addr l t \<noteq> slot_addr l t"
      by (auto simp: loop_guard_def split: if_splits)
    have h: "insert (home_addr l t) (insert (slot_addr l t) (held w)) - {slot_addr l t}
        - {home_addr l t} = held w"
      using g by auto
    obtain d c H tr where w: "w = \<lparr>disk = d, cache = c, held = H, trace = tr\<rparr>"
      by (cases w) simp
    show ?thesis
      using True t None g h unfolding w
      by (subst install_trans_loop.simps)
        (simp add: bread_def bwrite_def brelse_def bunpin_def set_data_def emit_def
          install_step_def install_events_def bdata_def)
  qed
qed

lemma write_log_loop_unfold:
  "write_log_loop t l w =
     (if t < logged_n l then
        (case loop_guard l t w of Some e \<Rightarrow> Inl e
         | None \<Rightarrow> write_log_loop (Suc t) l (write_log_step l t w))
      else Inr w)"
proof (cases "t < logged_n l")
  case False
  then show ?thesis
    by (subst write_log_loop.simps) (simp add: logged_n_def zless_nat_eq_int_zless)
next
  case True
  then have t: "int t < sint (lh_n (log_lh l))"
    by (simp add: logged_n_def zless_nat_eq_int_zless)
  show ?thesis
  proof (cases "loop_guard l t w")
    case (Some e)
    then show ?thesis
      using True t
      by (subst write_log_loop.simps)
        (auto simp: loop_guard_def bread_def split: if_splits)
  next
    case None
    then have g: "int32 (sint (log_start l) + int t + 1)" "\<not> LOGSIZE \<le> int t"
        "slot_addr l t \<notin> held w" "home_addr l t \<notin> held w" "home_addr l t \<noteq> slot_addr l t"
      by (auto simp: loop_guard_def split: if_splits)
    have h: "insert (home_addr l t) (insert (slot_addr l t) (held w)) - {home_addr l t}
        - {slot_addr l t} = held w"
      using g by auto
    obtain d c H tr where w: "w = \<lparr>disk = d, cache = c, held = H, trace = tr\<rparr>"
      by (cases w) simp
    show ?thesis
      using True t None g h unfolding w
      by (subst write_log_loop.simps)
        (simp add: bread_def bwrite_def brelse_def set_data_def
          write_log_step_def write_log_events_def bdata_def cong: option.case_cong)
  qed
qed

lemma write_head_loop_iff:
  "write_head_loop i l hb = Inr hb' \<longleftrightarrow>
     (i < logged_n l \<longrightarrow> head_fits (lh_n (log_lh l))) \<and>
     hb' = (\<lambda>j. if i < j \<and> j \<le> logged_n l then lh_block (log_lh l) (j - 1) else hb j)"
proof (induction "logged_n l - i" arbitrary: i hb)
  case 0
  then have "\<not> int i < sint (lh_n (log_lh l))"
    by (simp add: logged_n_def)
  moreover have "(\<lambda>j. if i < j \<and> j \<le> logged_n l then lh_block (log_lh l) (j - 1) else hb j) = hb"
    using 0 by (auto simp: fun_eq_iff)
  ultimately show ?case
    using 0 by (subst write_head_loop.simps) auto
next
  case (Suc k)
  then have i: "i < logged_n l" and k: "k = logged_n l - Suc i" by simp_all
  then have ii: "int i < sint (lh_n (log_lh l))"
    by (simp add: logged_n_def zless_nat_eq_int_zless)
  show ?case
  proof (cases "LOGSIZE \<le> int i")
    case True
    then have "\<not> head_fits (lh_n (log_lh l))" using ii by (simp add: head_fits_def)
    then show ?thesis using True ii i by (subst write_head_loop.simps) simp
  next
    case False
    have e: "(\<lambda>j. if Suc i < j \<and> j \<le> logged_n l then lh_block (log_lh l) (j - 1)
                  else (hb(Suc i := lh_block (log_lh l) i)) j)
           = (\<lambda>j. if i < j \<and> j \<le> logged_n l then lh_block (log_lh l) (j - 1) else hb j)"
      using i by (auto simp: fun_eq_iff)
    have "write_head_loop i l hb = write_head_loop (Suc i) l (hb(Suc i := lh_block (log_lh l) i))"
      using False ii by (subst write_head_loop.simps) simp
    then show ?thesis
      using Suc.hyps(1) [OF k, of "hb(Suc i := lh_block (log_lh l) i)"] i False
      unfolding e
      by (cases "Suc i < logged_n l") (auto simp: head_fits_def logged_n_def)
  qed
qed

lemma write_head_iff:
  "write_head l w = Inr w' \<longleftrightarrow>
     head_addr l \<notin> held w \<and> (0 < logged_n l \<longrightarrow> head_fits (lh_n (log_lh l))) \<and>
     w' = w\<lparr>disk := (disk w)(head_addr l := head_block l (bdata w (head_addr l))),
            cache := (cache w)(head_addr l \<mapsto> head_block l (bdata w (head_addr l))),
            trace := trace w @ [Bread (head_addr l),
              Bwrite (head_addr l) (head_block l (bdata w (head_addr l))), Brelse (head_addr l)]\<rparr>"
proof (cases "head_addr l \<in> held w")
  case True
  then show ?thesis by (simp add: write_head_def bread_def)
next
  case False
  obtain d c H tr where w: "w = \<lparr>disk = d, cache = c, held = H, trace = tr\<rparr>"
    by (cases w) simp
  have h: "insert (head_addr l) H - {head_addr l} = H"
    using False by (auto simp: w)
  have hb: "(\<lambda>j. if 0 < j \<and> j \<le> logged_n l then lh_block (log_lh l) (j - 1)
               else (x(0 := lh_n (log_lh l))) j) = head_block l x" for x
    by (auto simp: head_block_def fun_eq_iff)
  show ?thesis
    using False h unfolding w
    by (auto simp: write_head_def bread_def bwrite_def brelse_def set_data_def bdata_def
        thn_eq_Inr write_head_loop_iff hb cong: option.case_cong)
qed

lemma read_head_loop_iff:
  "read_head_loop i hb l = Inr l' \<longleftrightarrow>
     (i < logged_n l \<longrightarrow> head_fits (lh_n (log_lh l))) \<and>
     l' = l\<lparr>log_lh := (log_lh l)\<lparr>lh_block :=
            (\<lambda>j. if i \<le> j \<and> j < logged_n l then hb (Suc j) else lh_block (log_lh l) j)\<rparr>\<rparr>"
proof (induction "logged_n l - i" arbitrary: i l)
  case 0
  then have "\<not> int i < sint (lh_n (log_lh l))"
    by (simp add: logged_n_def)
  moreover have "(\<lambda>j. if i \<le> j \<and> j < logged_n l then hb (Suc j) else lh_block (log_lh l) j)
      = lh_block (log_lh l)"
    using 0 by (auto simp: fun_eq_iff)
  ultimately show ?case
    using 0 by (subst read_head_loop.simps) auto
next
  case (Suc k)
  let ?l = "l\<lparr>log_lh := (log_lh l)\<lparr>lh_block := (lh_block (log_lh l))(i := hb (Suc i))\<rparr>\<rparr>"
  have n: "logged_n ?l = logged_n l" by (simp add: logged_n_def)
  from Suc have i: "i < logged_n l" and k: "k = logged_n ?l - Suc i" by (simp_all add: n)
  then have ii: "int i < sint (lh_n (log_lh l))"
    by (simp add: logged_n_def zless_nat_eq_int_zless)
  show ?case
  proof (cases "LOGSIZE \<le> int i")
    case True
    then have "\<not> head_fits (lh_n (log_lh l))" using ii by (simp add: head_fits_def)
    then show ?thesis using True ii i by (subst read_head_loop.simps) simp
  next
    case False
    have e: "(\<lambda>j. if Suc i \<le> j \<and> j < logged_n l then hb (Suc j)
                  else ((lh_block (log_lh l))(i := hb (Suc i))) j)
           = (\<lambda>j. if i \<le> j \<and> j < logged_n l then hb (Suc j) else lh_block (log_lh l) j)"
      using i by (auto simp: fun_eq_iff)
    have s: "read_head_loop i hb l = read_head_loop (Suc i) hb ?l"
      using False ii by (subst read_head_loop.simps) simp
    have u: "?l\<lparr>log_lh := (log_lh ?l)\<lparr>lh_block := f\<rparr>\<rparr> = l\<lparr>log_lh := (log_lh l)\<lparr>lh_block := f\<rparr>\<rparr>" for f
      by simp
    have ih: "read_head_loop (Suc i) hb ?l = Inr l' \<longleftrightarrow>
        (Suc i < logged_n l \<longrightarrow> head_fits (lh_n (log_lh l))) \<and>
        l' = l\<lparr>log_lh := (log_lh l)\<lparr>lh_block :=
            (\<lambda>j. if i \<le> j \<and> j < logged_n l then hb (Suc j) else lh_block (log_lh l) j)\<rparr>\<rparr>"
    proof -
      have e2: "(\<lambda>j. if Suc i \<le> j \<and> j < logged_n l then hb (Suc j)
                  else if j = i then hb (Suc i) else lh_block (log_lh l) j)
           = (\<lambda>j. if i \<le> j \<and> j < logged_n l then hb (Suc j) else lh_block (log_lh l) j)"
        using i by (auto simp: fun_eq_iff)
      show ?thesis
        using Suc.hyps(1) [OF k] unfolding n u by (simp add: e2 cong: if_cong)
    qed
    have f: "head_fits (lh_n (log_lh l))" if "\<not> Suc i < logged_n l"
      using that i False by (simp add: head_fits_def logged_n_def)
    show ?thesis
      unfolding s ih using i f by auto
  qed
qed

lemma read_head_iff:
  "read_head l w = Inr (l', w') \<longleftrightarrow>
     head_addr l \<notin> held w \<and>
     (0 < sint (bdata w (head_addr l) 0) \<longrightarrow> head_fits (bdata w (head_addr l) 0)) \<and>
     l' = read_header l (bdata w (head_addr l)) \<and>
     w' = w\<lparr>cache := (cache w)(head_addr l \<mapsto> bdata w (head_addr l)),
            trace := trace w @ [Bread (head_addr l), Brelse (head_addr l)]\<rparr>"
proof (cases "head_addr l \<in> held w")
  case True
  then show ?thesis by (simp add: read_head_def bread_def)
next
  case False
  obtain d c H tr where w: "w = \<lparr>disk = d, cache = c, held = H, trace = tr\<rparr>"
    by (cases w) simp
  have h: "insert (head_addr l) H - {head_addr l} = H"
    using False by (auto simp: w)
  have hd: "head_addr (l\<lparr>log_lh := x\<rparr>) = head_addr l" for x
    by (simp add: head_addr_def)
  have rh: "l\<lparr>log_lh := (log_lh l)\<lparr>lh_n := k\<rparr>\<lparr>lh_block := f\<rparr>\<rparr>
      = l\<lparr>log_lh := \<lparr>lh_n = k, lh_block = f\<rparr>\<rparr>" for k f
    by simp
  show ?thesis
    using False h unfolding w
    by (auto simp: read_head_def bread_def brelse_def bdata_def read_header_def
        thn_eq_Inr read_head_loop_iff logged_n_def hd cong: option.case_cong if_cong)
qed

lemma held_install_step [simp]: "held (install_step r l t w) = held w"
  by (simp add: install_step_def)

lemma held_write_log_step [simp]: "held (write_log_step l t w) = held w"
  by (simp add: write_log_step_def)

lemma trace_install_step [simp]:
  "trace (install_step r l t w) = trace w @ install_events r l t (bdata w (slot_addr l t))"
  by (simp add: install_step_def)

lemma trace_write_log_step [simp]:
  "trace (write_log_step l t w) = trace w @ write_log_events l t (bdata w (home_addr l t))"
  by (simp add: write_log_step_def)

lemma held_fold_install [simp]: "held (fold (install_step r l) ts w) = held w"
  by (induction ts arbitrary: w) simp_all

lemma held_fold_write_log [simp]: "held (fold (write_log_step l) ts w) = held w"
  by (induction ts arbitrary: w) simp_all

lemma loop_guard_held: "held w' = held w \<Longrightarrow> loop_guard l t w' = loop_guard l t w"
  by (simp add: loop_guard_def)

lemma loop_guard_fold_install [simp]:
  "loop_guard l t (fold (install_step r l) ts w) = loop_guard l t w"
  by (rule loop_guard_held) simp

lemma loop_guard_fold_write_log [simp]:
  "loop_guard l t (fold (write_log_step l) ts w) = loop_guard l t w"
  by (rule loop_guard_held) simp

lemma install_trans_iff:
  "install_trans r l w = Inr w' \<longleftrightarrow>
     (\<forall>i < logged_n l. loop_guard l i w = None) \<and>
     w' = fold (install_step r l) [0..<logged_n l] w"
proof -
  have "install_trans_loop 0 r l w = Inr w' \<longleftrightarrow>
      (w' = fold (install_step r l) [0..<logged_n l] w \<and>
       (\<forall>i. 0 \<le> i \<and> i < logged_n l \<longrightarrow>
          loop_guard l i (fold (install_step r l) [0..<i] w) = None))"
    by (rule loop_fold) (rule install_trans_loop_unfold)
  then show ?thesis
    by (auto simp: install_trans_def)
qed

lemma write_log_iff:
  "write_log l w = Inr w' \<longleftrightarrow>
     (\<forall>i < logged_n l. loop_guard l i w = None) \<and>
     w' = fold (write_log_step l) [0..<logged_n l] w"
proof -
  have "write_log_loop 0 l w = Inr w' \<longleftrightarrow>
      (w' = fold (write_log_step l) [0..<logged_n l] w \<and>
       (\<forall>i. 0 \<le> i \<and> i < logged_n l \<longrightarrow>
          loop_guard l i (fold (write_log_step l) [0..<i] w) = None))"
    by (rule loop_fold) (rule write_log_loop_unfold)
  then show ?thesis
    by (auto simp: write_log_def)
qed

lemma held_write_head_step [simp]: "held (write_head_step l w) = held w"
  by (simp add: write_head_step_def)

lemma held_read_head_step [simp]: "held (read_head_step l w) = held w"
  by (simp add: read_head_step_def)

lemma write_head_iff':
  "write_head l w = Inr w' \<longleftrightarrow>
     head_addr l \<notin> held w \<and> (0 < logged_n l \<longrightarrow> head_fits (lh_n (log_lh l))) \<and>
     w' = write_head_step l w"
  by (simp add: write_head_iff write_head_step_def)

lemma read_head_iff':
  "read_head l w = Inr (l', w') \<longleftrightarrow>
     head_addr l \<notin> held w \<and>
     (0 < sint (bdata w (head_addr l) 0) \<longrightarrow> head_fits (bdata w (head_addr l) 0)) \<and>
     l' = read_header l (bdata w (head_addr l)) \<and> w' = read_head_step l w"
  by (simp add: read_head_iff read_head_step_def)

lemma loop_guard_write_head_step [simp]:
  "loop_guard l t (write_head_step l' w) = loop_guard l t w"
  by (rule loop_guard_held) simp

lemma loop_guard_read_head_step [simp]:
  "loop_guard l t (read_head_step l' w) = loop_guard l t w"
  by (rule loop_guard_held) simp

lemma clear_n_simps [simp]:
  "head_addr (clear_n l) = head_addr l" "logged_n (clear_n l) = 0"
  "lh_n (log_lh (clear_n l)) = 0" "log_start (clear_n l) = log_start l"
  "log_dev (clear_n l) = log_dev l" "log_size (clear_n l) = log_size l"
  "log_outstanding (clear_n l) = log_outstanding l"
  "log_committing (clear_n l) = log_committing l"
  "lh_block (log_lh (clear_n l)) = lh_block (log_lh l)"
  by (simp_all add: clear_n_def head_addr_def logged_n_def)

lemma home_addr_n [simp]: "home_addr (l\<lparr>log_lh := (log_lh l)\<lparr>lh_n := k\<rparr>\<rparr>) = home_addr l"
  by (simp add: home_addr_def fun_eq_iff)

lemma read_header_simps [simp]:
  "head_addr (read_header l hb) = head_addr l"
  "log_start (read_header l hb) = log_start l"
  "log_dev (read_header l hb) = log_dev l"
  "log_size (read_header l hb) = log_size l"
  "lh_n (log_lh (read_header l hb)) = hb 0"
  "logged_n (read_header l hb) = nat (sint (hb 0))"
  by (simp_all add: read_header_def head_addr_def logged_n_def)

lemma commit_iff:
  assumes "0 < sint (lh_n (log_lh l))"
  shows "commit l w = Inr (l', w') \<longleftrightarrow>
     (\<forall>i < logged_n l. loop_guard l i w = None) \<and> head_addr l \<notin> held w \<and>
     head_fits (lh_n (log_lh l)) \<and> l' = clear_n l \<and> w' = commit_world l w"
proof -
  have n: "0 < logged_n l" using assms by (simp add: logged_n_def)
  show ?thesis
    using assms n
    by (auto simp: commit_def thn_eq_Inr write_log_iff write_head_iff' install_trans_iff
        commit_world_def clear_n_def [symmetric])
qed

lemma recover_iff:
  "recover_from_log l w = Inr (l', w') \<longleftrightarrow>
     head_addr l \<notin> held w \<and>
     (0 < sint (bdata w (head_addr l) 0) \<longrightarrow> head_fits (bdata w (head_addr l) 0)) \<and>
     (\<forall>i < nat (sint (bdata w (head_addr l) 0)).
        loop_guard (read_header l (bdata w (head_addr l))) i w = None) \<and>
     l' = clear_n (read_header l (bdata w (head_addr l))) \<and> w' = recover_world l w"
  by (auto simp: recover_from_log_def thn_eq_Inr read_head_iff' install_trans_iff write_head_iff'
      recover_world_def Let_def clear_n_def [symmetric])




subsection \<open>What the functions record\<close>

lemma fold_install_trace:
  "\<exists>es. trace (fold (install_step r l) ts w) = trace w @ es \<and> io_only es \<and> pinned es = [] \<and>
        unpinned es = (if r = 0 then map (home_addr l) ts else [])"
proof (induction ts arbitrary: w)
  case Nil
  show ?case by (simp add: io_only_def)
next
  case (Cons t ts)
  obtain es where es: "trace (fold (install_step r l) ts (install_step r l t w))
        = trace (install_step r l t w) @ es"
      "io_only es" "pinned es = []" "unpinned es = (if r = 0 then map (home_addr l) ts else [])"
    using Cons [of "install_step r l t w"] by blast
  show ?case
    by (rule exI [of _ "install_events r l t (bdata w (slot_addr l t)) @ es"])
      (simp add: es)
qed

lemma fold_write_log_trace:
  "\<exists>es. trace (fold (write_log_step l) ts w) = trace w @ es \<and> io_only es \<and> pinned es = [] \<and>
        unpinned es = []"
proof (induction ts arbitrary: w)
  case Nil
  show ?case by (simp add: io_only_def)
next
  case (Cons t ts)
  obtain es where es: "trace (fold (write_log_step l) ts (write_log_step l t w))
        = trace (write_log_step l t w) @ es"
      "io_only es" "pinned es = []" "unpinned es = []"
    using Cons [of "write_log_step l t w"] by blast
  show ?case
    by (rule exI [of _ "write_log_events l t (bdata w (home_addr l t)) @ es"])
      (simp add: es)
qed

lemma write_head_trace:
  assumes "write_head l w = Inr w'"
  shows "\<exists>es. trace w' = trace w @ es \<and> io_only es \<and> pinned es = [] \<and> unpinned es = []"
  using assms by (simp add: write_head_iff io_only_def)

lemma install_trans_trace:
  assumes "install_trans r l w = Inr w'"
  shows "\<exists>es. trace w' = trace w @ es \<and> io_only es \<and> pinned es = [] \<and>
      unpinned es = (if r = 0 then map (home_addr l) [0..<logged_n l] else [])"
  using assms fold_install_trace by (simp add: install_trans_iff)

lemma write_log_trace:
  assumes "write_log l w = Inr w'"
  shows "\<exists>es. trace w' = trace w @ es \<and> io_only es \<and> pinned es = [] \<and> unpinned es = []"
  using assms fold_write_log_trace by (simp add: write_log_iff)

lemma commit_trace:
  assumes "commit l w = Inr (l', w')"
  shows "\<exists>es. trace w' = trace w @ es \<and> io_only es \<and> pinned es = [] \<and>
      unpinned es = map (home_addr l) [0..<logged_n l]"
proof (cases "0 < sint (lh_n (log_lh l))")
  case False
  then show ?thesis using assms by (simp add: commit_def logged_n_def io_only_def)
next
  case True
  let ?l0 = "l\<lparr>log_lh := (log_lh l)\<lparr>lh_n := 0\<rparr>\<rparr>"
  from assms True obtain w1 w2 w3 where
    s: "write_log l w = Inr w1" "write_head l w1 = Inr w2" "install_trans 0 l w2 = Inr w3"
      "write_head ?l0 w3 = Inr w'"
    by (auto simp: commit_def thn_eq_Inr)
  from write_log_trace [OF s(1)] obtain e1 where
    e1: "trace w1 = trace w @ e1" "io_only e1" "pinned e1 = []" "unpinned e1 = []" by blast
  from write_head_trace [OF s(2)] obtain e2 where
    e2: "trace w2 = trace w1 @ e2" "io_only e2" "pinned e2 = []" "unpinned e2 = []" by blast
  from install_trans_trace [OF s(3)] obtain e3 where
    e3: "trace w3 = trace w2 @ e3" "io_only e3" "pinned e3 = []"
      "unpinned e3 = map (home_addr l) [0..<logged_n l]" by auto
  from write_head_trace [OF s(4)] obtain e4 where
    e4: "trace w' = trace w3 @ e4" "io_only e4" "pinned e4 = []" "unpinned e4 = []" by blast
  show ?thesis
    by (rule exI [of _ "e1 @ e2 @ e3 @ e4"]) (simp add: e1 e2 e3 e4)
qed


lemma trace_write_head_step:
  "trace (write_head_step l w) = trace w @ head_events l (head_block l (bdata w (head_addr l)))"
  by (simp add: write_head_step_def head_events_def)

lemma trace_read_head_step:
  "trace (read_head_step l w) = trace w @ [Bread (head_addr l), Brelse (head_addr l)]"
  by (simp add: read_head_step_def)

lemma head_events_clear_n [simp]: "head_events (clear_n l) = head_events l"
  by (simp add: head_events_def fun_eq_iff)

lemma head_events_read_header [simp]: "head_events (read_header l hb) = head_events l"
  by (rule head_events_cong) simp

lemma homes_logged: "map (home_addr l) [0..<logged_n l] = map (Pair (log_dev l)) (logged l)"
  by (simp add: logged_def home_addr_def comp_def)

lemma recover_trace:
  assumes "recover_from_log l w = Inr (l', w')"
  shows "\<exists>es. trace w' = trace w @ es \<and> io_only es \<and> pinned es = [] \<and> unpinned es = []"
proof -
  from assms obtain l1 w1 w2 where
    s: "read_head l w = Inr (l1, w1)" "install_trans 1 l1 w1 = Inr w2"
      "write_head (l1\<lparr>log_lh := (log_lh l1)\<lparr>lh_n := 0\<rparr>\<rparr>) w2 = Inr w'"
    by (auto simp: recover_from_log_def thn_eq_Inr)
  from s(1) have e1: "trace w1 = trace w @ [Bread (head_addr l), Brelse (head_addr l)]"
    by (simp add: read_head_iff' trace_read_head_step)
  from install_trans_trace [OF s(2)] obtain e2 where
    e2: "trace w2 = trace w1 @ e2" "io_only e2" "pinned e2 = []" "unpinned e2 = []" by auto
  from write_head_trace [OF s(3)] obtain e3 where
    e3: "trace w' = trace w2 @ e3" "io_only e3" "pinned e3 = []" "unpinned e3 = []" by blast
  have "io_only ([Bread (head_addr l), Brelse (head_addr l)] @ e2 @ e3)"
    using e2(2) e3(2) by (simp add: io_only_def)
  then show ?thesis
    by (intro exI [of _ "[Bread (head_addr l), Brelse (head_addr l)] @ e2 @ e3"])
      (simp add: e1 e2 e3)
qed

lemma end_op_commits:
  assumes "sint (log_outstanding l) = 1" "end_op l w = Inr (l', w')"
  shows "\<exists>l2 w2. commit (l\<lparr>log_outstanding := 0, log_committing := 1\<rparr>)
              (w\<lparr>trace := trace w @ [Acquire, Release]\<rparr>) = Inr (l2, w2) \<and>
           w' = w2\<lparr>trace := trace w2 @ [Acquire, Wakeup, Release]\<rparr>"
proof -
  have o: "log_outstanding l = 1" using assms(1) by (simp add: sint_eq_1)
  show ?thesis
    using assms(2) o
    by (auto simp: end_op_def int32_def emit_def thn_eq_Inr split: if_splits)
qed

subsection \<open>Buffers and disk after the steps\<close>

lemma bdata_install_step:
  "bdata (install_step r l t w) a = (if a = home_addr l t then bdata w (slot_addr l t) else bdata w a)"
  by (auto simp: install_step_def bdata_def split: option.splits)

lemma disk_install_step:
  "disk (install_step r l t w) a = (if a = home_addr l t then bdata w (slot_addr l t) else disk w a)"
  by (simp add: install_step_def)

lemma bdata_write_log_step:
  "bdata (write_log_step l t w) a = (if a = slot_addr l t then bdata w (home_addr l t) else bdata w a)"
  by (auto simp: write_log_step_def bdata_def split: option.splits)

lemma disk_write_log_step:
  "disk (write_log_step l t w) a = (if a = slot_addr l t then bdata w (home_addr l t) else disk w a)"
  by (simp add: write_log_step_def)

lemma bdata_write_head_step:
  "bdata (write_head_step l w) a =
     (if a = head_addr l then head_block l (bdata w (head_addr l)) else bdata w a)"
  by (auto simp: write_head_step_def bdata_def split: option.splits)

lemma disk_write_head_step:
  "disk (write_head_step l w) a =
     (if a = head_addr l then head_block l (bdata w (head_addr l)) else disk w a)"
  by (simp add: write_head_step_def)

lemma bdata_read_head_step [simp]: "bdata (read_head_step l w) = bdata w"
  by (auto simp: read_head_step_def bdata_def fun_eq_iff split: option.splits)

lemma disk_read_head_step [simp]: "disk (read_head_step l w) = disk w"
  by (simp add: read_head_step_def)

lemma disk_install_step_fun:
  "disk (install_step r l t w) = (disk w)(home_addr l t := bdata w (slot_addr l t))"
  by (simp add: install_step_def)

lemma disk_write_log_step_fun:
  "disk (write_log_step l t w) = (disk w)(slot_addr l t := bdata w (home_addr l t))"
  by (simp add: write_log_step_def)

lemma disk_write_head_step_fun:
  "disk (write_head_step l w) = (disk w)(head_addr l := head_block l (bdata w (head_addr l)))"
  by (simp add: write_head_step_def)

text \<open>A loop whose iteration \<open>t\<close> copies the buffer of \<open>src t\<close> to \<open>dst t\<close> and writes it.\<close>

lemma copy_fold_frame:
  fixes step :: "nat \<Rightarrow> world \<Rightarrow> world"
  assumes b: "\<And>t w a. bdata (step t w) a = (if a = dst t then bdata w (src t) else bdata w a)"
    and d: "\<And>t w a. disk (step t w) a = (if a = dst t then bdata w (src t) else disk w a)"
  shows "a \<notin> dst ` set ts \<Longrightarrow>
     bdata (fold step ts w) a = bdata w a \<and> disk (fold step ts w) a = disk w a"
  by (induction ts arbitrary: w) (simp_all add: b d)

lemma copy_fold_trace:
  fixes step :: "nat \<Rightarrow> world \<Rightarrow> world"
  assumes b: "\<And>t w a. bdata (step t w) a = (if a = dst t then bdata w (src t) else bdata w a)"
    and e: "\<And>t w. trace (step t w) = trace w @ ev t (bdata w (src t))"
  shows "\<forall>t \<in> set ts. \<forall>u \<in> set ts. src t \<noteq> dst u \<Longrightarrow>
     trace (fold step ts w) = trace w @ concat (map (\<lambda>t. ev t (bdata w (src t))) ts)"
proof (induction ts arbitrary: w)
  case Nil
  show ?case by simp
next
  case (Cons t ts)
  have m: "map (\<lambda>u. ev u (bdata (step t w) (src u))) ts = map (\<lambda>u. ev u (bdata w (src u))) ts"
    using Cons.prems by (intro map_cong) (auto simp: b)
  have ih: "trace (fold step ts (step t w)) =
      trace (step t w) @ concat (map (\<lambda>u. ev u (bdata (step t w) (src u))) ts)"
    using Cons.IH Cons.prems by simp
  show ?case
    by (simp add: ih m e)
qed

lemma copy_fold_dst:
  fixes step :: "nat \<Rightarrow> world \<Rightarrow> world"
  assumes b: "\<And>t w a. bdata (step t w) a = (if a = dst t then bdata w (src t) else bdata w a)"
    and d: "\<And>t w a. disk (step t w) a = (if a = dst t then bdata w (src t) else disk w a)"
  shows "\<forall>t \<in> set ts. \<forall>u \<in> set ts. src t \<noteq> dst u \<Longrightarrow>
     \<forall>t \<in> set ts. bdata w (src t) = val (dst t) \<Longrightarrow>
     \<forall>t \<in> set ts. bdata (fold step ts w) (dst t) = val (dst t) \<and>
                   disk (fold step ts w) (dst t) = val (dst t)"
proof (induction ts arbitrary: w)
  case Nil
  then show ?case by simp
next
  case (Cons u ts)
  have v: "\<forall>t \<in> set ts. bdata (step u w) (src t) = val (dst t)"
    using Cons.prems by (auto simp: b)
  have na: "\<forall>t \<in> set ts. \<forall>u \<in> set ts. src t \<noteq> dst u"
    using Cons.prems by simp
  have ih: "\<forall>t \<in> set ts. bdata (fold step ts (step u w)) (dst t) = val (dst t) \<and>
                   disk (fold step ts (step u w)) (dst t) = val (dst t)"
    using Cons.IH [OF na v] .
  have "bdata (fold step ts (step u w)) (dst u) = val (dst u) \<and>
        disk (fold step ts (step u w)) (dst u) = val (dst u)"
  proof (cases "dst u \<in> dst ` set ts")
    case True
    then obtain t' where t': "t' \<in> set ts" "dst t' = dst u" by auto
    show ?thesis
      using ih t' by metis
  next
    case False
    show ?thesis
      using copy_fold_frame [of step dst src, OF b d False, of "step u w"] Cons.prems(2)
      by (simp add: b d)
  qed
  then show ?case using ih by simp
qed

lemma copy_fold_distinct:
  fixes step :: "nat \<Rightarrow> world \<Rightarrow> world"
  assumes b: "\<And>t w a. bdata (step t w) a = (if a = dst t then bdata w (src t) else bdata w a)"
    and d: "\<And>t w a. disk (step t w) a = (if a = dst t then bdata w (src t) else disk w a)"
  shows "\<forall>t \<in> set ts. \<forall>u \<in> set ts. src t \<noteq> dst u \<Longrightarrow> distinct (map dst ts) \<Longrightarrow>
     \<forall>t \<in> set ts. bdata (fold step ts w) (dst t) = bdata w (src t) \<and>
                   disk (fold step ts w) (dst t) = bdata w (src t)"
proof (induction ts arbitrary: w)
  case Nil
  then show ?case by simp
next
  case (Cons u ts)
  have na: "\<forall>t \<in> set ts. \<forall>u \<in> set ts. src t \<noteq> dst u" and di: "distinct (map dst ts)"
    and nu: "dst u \<notin> dst ` set ts" and su: "\<forall>t \<in> set ts. src t \<noteq> dst u"
    using Cons.prems by auto
  have ih: "\<forall>t \<in> set ts. bdata (fold step ts (step u w)) (dst t) = bdata (step u w) (src t) \<and>
                   disk (fold step ts (step u w)) (dst t) = bdata (step u w) (src t)"
    using Cons.IH [OF na di] .
  have "bdata (fold step ts (step u w)) (dst u) = bdata w (src u) \<and>
        disk (fold step ts (step u w)) (dst u) = bdata w (src u)"
    using copy_fold_frame [of step dst src, OF b d nu, of "step u w"] by (simp add: b d)
  then show ?case using ih su by (simp add: b)
qed

lemma fold_install_replay:
  "\<exists>es. trace (fold (install_step r l) ts w) = trace w @ es \<and>
        disk (fold (install_step r l) ts w) = replay es (disk w)"
proof (induction ts arbitrary: w)
  case Nil
  show ?case by simp
next
  case (Cons t ts)
  obtain es where es: "trace (fold (install_step r l) ts (install_step r l t w))
        = trace (install_step r l t w) @ es"
      "disk (fold (install_step r l) ts (install_step r l t w))
        = replay es (disk (install_step r l t w))"
    using Cons [of "install_step r l t w"] by blast
  have "replay (install_events r l t (bdata w (slot_addr l t)) @ es) (disk w)
      = replay es (disk (install_step r l t w))"
    by (simp only: replay_append replay_install_events disk_install_step_fun)
  then show ?case
    by (intro exI [of _ "install_events r l t (bdata w (slot_addr l t)) @ es"])
      (simp only: fold_simps es trace_install_step append_assoc simp_thms)
qed

lemma fold_write_log_replay:
  "\<exists>es. trace (fold (write_log_step l) ts w) = trace w @ es \<and>
        disk (fold (write_log_step l) ts w) = replay es (disk w)"
proof (induction ts arbitrary: w)
  case Nil
  show ?case by simp
next
  case (Cons t ts)
  obtain es where es: "trace (fold (write_log_step l) ts (write_log_step l t w))
        = trace (write_log_step l t w) @ es"
      "disk (fold (write_log_step l) ts (write_log_step l t w))
        = replay es (disk (write_log_step l t w))"
    using Cons [of "write_log_step l t w"] by blast
  have "replay (write_log_events l t (bdata w (home_addr l t)) @ es) (disk w)
      = replay es (disk (write_log_step l t w))"
    by (simp only: replay_append replay_write_log_events disk_write_log_step_fun)
  then show ?case
    by (intro exI [of _ "write_log_events l t (bdata w (home_addr l t)) @ es"])
      (simp only: fold_simps es trace_write_log_step append_assoc simp_thms)
qed

lemma write_head_step_replay:
  "disk (write_head_step l w) = replay (head_events l (head_block l (bdata w (head_addr l)))) (disk w)"
  by (simp only: replay_head_events disk_write_head_step_fun)

lemma commit_world_replay:
  "\<exists>es. trace (commit_world l w) = trace w @ es \<and> disk (commit_world l w) = replay es (disk w)"
proof -
  let ?ts = "[0..<logged_n l]"
  let ?w1 = "fold (write_log_step l) ?ts w"
  let ?w2 = "write_head_step l ?w1"
  let ?w3 = "fold (install_step 0 l) ?ts ?w2"
  obtain e1 where e1: "trace ?w1 = trace w @ e1" "disk ?w1 = replay e1 (disk w)"
    using fold_write_log_replay by blast
  obtain e3 where e3: "trace ?w3 = trace ?w2 @ e3" "disk ?w3 = replay e3 (disk ?w2)"
    using fold_install_replay by blast
  let ?e2 = "head_events l (head_block l (bdata ?w1 (head_addr l)))"
  let ?e4 = "head_events (clear_n l) (head_block (clear_n l) (bdata ?w3 (head_addr (clear_n l))))"
  have t: "trace (commit_world l w) = trace w @ (e1 @ ?e2 @ e3 @ ?e4)"
    unfolding commit_world_def by (simp add: trace_write_head_step e1 e3)
  have d: "disk (commit_world l w) = replay (e1 @ ?e2 @ e3 @ ?e4) (disk w)"
    unfolding commit_world_def
    by (simp only: replay_append write_head_step_replay e1 e3)
  show ?thesis using t d by blast
qed

lemma recover_world_replay:
  "\<exists>es. trace (recover_world l w) = trace w @ es \<and> disk (recover_world l w) = replay es (disk w)"
proof -
  let ?l1 = "read_header l (bdata w (head_addr l))"
  let ?w1 = "read_head_step l w"
  let ?w3 = "fold (install_step 1 ?l1) [0..<nat (sint (bdata w (head_addr l) 0))] ?w1"
  obtain e3 where e3: "trace ?w3 = trace ?w1 @ e3" "disk ?w3 = replay e3 (disk ?w1)"
    using fold_install_replay by blast
  let ?e1 = "[Bread (head_addr l), Brelse (head_addr l)]"
  let ?e4 = "head_events (clear_n ?l1) (head_block (clear_n ?l1) (bdata ?w3 (head_addr (clear_n ?l1))))"
  have t1: "trace ?w1 = trace w @ ?e1" by (simp add: read_head_step_def)
  have t: "trace (recover_world l w) = trace w @ (?e1 @ e3 @ ?e4)"
    unfolding recover_world_def Let_def by (simp add: trace_write_head_step e3 t1)
  have d1: "disk ?w1 = replay ?e1 (disk w)" by simp
  have d: "disk (recover_world l w) = replay (?e1 @ e3 @ ?e4) (disk w)"
    unfolding recover_world_def Let_def read_header_simps
    by (simp only: replay_append write_head_step_replay e3 d1)
  show ?thesis using t d by blast
qed

subsection \<open>Addresses of a sound log\<close>

lemma sound_int32:
  assumes "log_sound l" "i < logged_n l"
  shows "int32 (sint (log_start l) + int i + 1)"
proof -
  have "int32 (sint (log_start l))" by (rule int32_sint)
  moreover have "int32 (sint (log_start l) + int (logged_n l))"
    using assms by (simp add: log_sound_def)
  ultimately show ?thesis using assms(2) by (simp add: int32_def)
qed

lemma sint_slot:
  assumes "log_sound l" "i < logged_n l"
  shows "sint (snd (slot_addr l i)) = sint (log_start l) + int i + 1"
  unfolding slot_addr_def snd_conv
  by (rule sint_of_int32) (rule sound_int32 [OF assms])

lemma slot_addr_inj:
  assumes "log_sound l" "i < logged_n l" "j < logged_n l" "slot_addr l i = slot_addr l j"
  shows "i = j"
proof -
  have "sint (snd (slot_addr l i)) = sint (snd (slot_addr l j))"
    by (simp only: assms(4))
  then have "sint (log_start l) + int i + 1 = sint (log_start l) + int j + 1"
    by (simp only: sint_slot [OF assms(1,2)] sint_slot [OF assms(1,3)])
  then show ?thesis by simp
qed

lemma slot_not_head:
  assumes "log_sound l" "i < logged_n l"
  shows "slot_addr l i \<noteq> head_addr l"
proof
  assume "slot_addr l i = head_addr l"
  then have "sint (snd (slot_addr l i)) = sint (snd (head_addr l))"
    by (simp only:)
  then have "sint (log_start l) + int i + 1 = sint (log_start l)"
    by (simp only: sint_slot [OF assms] head_addr_def snd_conv)
  then show False by simp
qed

lemma home_in_homes: "i < logged_n l \<Longrightarrow> home_addr l i \<in> set (homes l)"
  by (simp add: homes_def)

lemma slot_in_slots: "i < logged_n l \<Longrightarrow> slot_addr l i \<in> set (slots l)"
  by (simp add: slots_def)

lemma home_not_slot:
  assumes "log_sound l" "i < logged_n l" "j < logged_n l"
  shows "home_addr l i \<noteq> slot_addr l j"
proof
  assume "home_addr l i = slot_addr l j"
  then have "home_addr l i \<in> set (homes l) \<inter> set (head_addr l # slots l)"
    using home_in_homes [OF assms(2)] slot_in_slots [OF assms(3)] by simp
  then show False using assms(1) unfolding log_sound_def by blast
qed

lemma home_not_head:
  assumes "log_sound l" "i < logged_n l"
  shows "home_addr l i \<noteq> head_addr l"
proof
  assume "home_addr l i = head_addr l"
  then have "home_addr l i \<in> set (homes l) \<inter> set (head_addr l # slots l)"
    using home_in_homes [OF assms(2)] by simp
  then show False using assms(1) unfolding log_sound_def by blast
qed

lemma distinct_slots:
  assumes "log_sound l"
  shows "distinct (slots l)"
proof -
  have "inj_on (slot_addr l) (set [0..<logged_n l])"
    by (rule inj_onI) (use slot_addr_inj [OF assms] in simp)
  then show ?thesis
    unfolding slots_def by (simp add: distinct_map)
qed

lemma sound_fits:
  assumes "log_sound l" "i < logged_n l"
  shows "\<not> LOGSIZE \<le> int i"
proof -
  have "int i < sint (lh_n (log_lh l))"
    using assms(2) by (simp add: logged_n_def zless_nat_eq_int_zless)
  then show ?thesis using assms(1) by (simp add: log_sound_def)
qed

lemma guards_ok:
  assumes "log_sound l" "held w = {}" "i < logged_n l"
  shows "loop_guard l i w = None"
  using sound_int32 [OF assms(1,3)] sound_fits [OF assms(1,3)]
    home_not_slot [OF assms(1,3,3)] assms(2)
  by (simp add: loop_guard_def)

lemma slot_not_home:
  assumes "log_sound l" "i < logged_n l" "j < logged_n l"
  shows "slot_addr l j \<noteq> home_addr l i"
  using home_not_slot [OF assms] by (rule not_sym)

lemma head_not_in_slots: "log_sound l \<Longrightarrow> head_addr l \<notin> set (slots l)"
  using slot_not_head by (fastforce simp: slots_def)

lemma head_not_in_homes: "log_sound l \<Longrightarrow> head_addr l \<notin> set (homes l)"
  by (auto simp: log_sound_def)

lemma slot_not_in_homes: "log_sound l \<Longrightarrow> i < logged_n l \<Longrightarrow> slot_addr l i \<notin> set (homes l)"
  using home_not_slot by (fastforce simp: homes_def)

lemma home_not_in_slots: "log_sound l \<Longrightarrow> i < logged_n l \<Longrightarrow> home_addr l i \<notin> set (slots l)"
  using home_not_slot by (fastforce simp: slots_def)

subsection \<open>commit on a sound log\<close>

lemma write_log_fold_trace:
  assumes "log_sound l"
  shows "trace (fold (write_log_step l) [0..<logged_n l] w) =
     trace w @ concat (map (\<lambda>i. write_log_events l i (bdata w (home_addr l i))) [0..<logged_n l])"
  by (rule copy_fold_trace [where dst = "slot_addr l" and src = "home_addr l"])
    (auto simp: bdata_write_log_step dest: home_not_slot [OF assms])

lemma write_log_fold_slot:
  assumes "log_sound l" "i < logged_n l"
  shows "bdata (fold (write_log_step l) [0..<logged_n l] w) (slot_addr l i) = bdata w (home_addr l i)"
    and "disk (fold (write_log_step l) [0..<logged_n l] w) (slot_addr l i) = bdata w (home_addr l i)"
proof -
  have "\<forall>t \<in> set [0..<logged_n l].
      bdata (fold (write_log_step l) [0..<logged_n l] w) (slot_addr l t) = bdata w (home_addr l t) \<and>
      disk (fold (write_log_step l) [0..<logged_n l] w) (slot_addr l t) = bdata w (home_addr l t)"
    by (rule copy_fold_distinct [where dst = "slot_addr l" and src = "home_addr l"])
      (use distinct_slots [OF assms(1)] in
        \<open>auto simp: bdata_write_log_step disk_write_log_step slots_def
            dest: home_not_slot [OF assms(1)]\<close>)
  then show "bdata (fold (write_log_step l) [0..<logged_n l] w) (slot_addr l i) = bdata w (home_addr l i)"
    and "disk (fold (write_log_step l) [0..<logged_n l] w) (slot_addr l i) = bdata w (home_addr l i)"
    using assms(2) by simp_all
qed

lemma write_log_fold_frame:
  assumes "a \<notin> set (slots l)"
  shows "bdata (fold (write_log_step l) [0..<logged_n l] w) a = bdata w a"
    and "disk (fold (write_log_step l) [0..<logged_n l] w) a = disk w a"
  using copy_fold_frame [where step = "write_log_step l" and dst = "slot_addr l"
      and src = "home_addr l" and ts = "[0..<logged_n l]" and a = a and w = w] assms
  by (simp_all add: bdata_write_log_step disk_write_log_step slots_def)

lemma install_fold_trace:
  assumes "log_sound l" "\<forall>i < logged_n l. bdata w (slot_addr l i) = c i"
  shows "trace (fold (install_step r l) [0..<logged_n l] w) =
     trace w @ concat (map (\<lambda>i. install_events r l i (c i)) [0..<logged_n l])"
proof -
  have "trace (fold (install_step r l) [0..<logged_n l] w) =
     trace w @ concat (map (\<lambda>i. install_events r l i (bdata w (slot_addr l i))) [0..<logged_n l])"
    by (rule copy_fold_trace [where dst = "home_addr l" and src = "slot_addr l"])
      (auto simp: bdata_install_step dest: slot_not_home [OF assms(1)])
  moreover have "map (\<lambda>i. install_events r l i (bdata w (slot_addr l i))) [0..<logged_n l]
      = map (\<lambda>i. install_events r l i (c i)) [0..<logged_n l]"
    using assms(2) by simp
  ultimately show ?thesis by simp
qed

lemma install_fold_home:
  assumes "log_sound l" "\<forall>i < logged_n l. bdata w (slot_addr l i) = val (home_addr l i)"
    "i < logged_n l"
  shows "bdata (fold (install_step r l) [0..<logged_n l] w) (home_addr l i) = val (home_addr l i)"
    and "disk (fold (install_step r l) [0..<logged_n l] w) (home_addr l i) = val (home_addr l i)"
proof -
  have "\<forall>t \<in> set [0..<logged_n l].
      bdata (fold (install_step r l) [0..<logged_n l] w) (home_addr l t) = val (home_addr l t) \<and>
      disk (fold (install_step r l) [0..<logged_n l] w) (home_addr l t) = val (home_addr l t)"
    by (rule copy_fold_dst [where dst = "home_addr l" and src = "slot_addr l"])
      (use assms(2) in \<open>auto simp: bdata_install_step disk_install_step
            dest: slot_not_home [OF assms(1)]\<close>)
  then show "bdata (fold (install_step r l) [0..<logged_n l] w) (home_addr l i) = val (home_addr l i)"
    and "disk (fold (install_step r l) [0..<logged_n l] w) (home_addr l i) = val (home_addr l i)"
    using assms(3) by simp_all
qed

lemma install_fold_frame:
  assumes "a \<notin> set (homes l)"
  shows "bdata (fold (install_step r l) [0..<logged_n l] w) a = bdata w a"
    and "disk (fold (install_step r l) [0..<logged_n l] w) a = disk w a"
  using copy_fold_frame [where step = "install_step r l" and dst = "home_addr l"
      and src = "slot_addr l" and ts = "[0..<logged_n l]" and a = a and w = w] assms
  by (simp_all add: bdata_install_step disk_install_step homes_def)

lemma commit_world_trace:
  assumes "log_sound l"
  shows "trace (commit_world l w) = trace w @ commit_events l w"
proof -
  let ?ts = "[0..<logged_n l]"
  let ?w1 = "fold (write_log_step l) ?ts w"
  let ?w2 = "write_head_step l ?w1"
  let ?w3 = "fold (install_step 0 l) ?ts ?w2"
  have h1: "bdata ?w1 (head_addr l) = bdata w (head_addr l)"
    by (rule write_log_fold_frame) (rule head_not_in_slots [OF assms])
  have s2: "\<forall>i < logged_n l. bdata ?w2 (slot_addr l i) = bdata w (home_addr l i)"
    using slot_not_head [OF assms] write_log_fold_slot(1) [OF assms]
    by (simp add: bdata_write_head_step)
  have t3: "trace ?w3 = trace ?w2 @
      concat (map (\<lambda>i. install_events 0 l i (bdata w (home_addr l i))) ?ts)"
    by (rule install_fold_trace [OF assms s2])
  have h3: "bdata ?w3 (head_addr l) = head_block l (bdata w (head_addr l))"
    using install_fold_frame(1) [OF head_not_in_homes [OF assms], of 0 ?w2]
    by (simp add: bdata_write_head_step h1)
  show ?thesis
    unfolding commit_world_def commit_events_def
    by (simp add: trace_write_head_step t3 h3 h1 write_log_fold_trace [OF assms])
qed

lemma commit_returns:
  assumes "log_sound l" "0 < sint (lh_n (log_lh l))" "held w = {}"
  shows "commit l w = Inr (clear_n l, commit_world l w)"
proof -
  have "head_fits (lh_n (log_lh l))" using assms(1) by (simp add: log_sound_def head_fits_def)
  then show ?thesis
    using guards_ok [OF assms(1,3)] assms(3) by (simp add: commit_iff [OF assms(2)])
qed

lemma write_log_replay_slot:
  assumes "log_sound l" "i < logged_n l"
  shows "replay (concat (map (\<lambda>i. write_log_events l i (bdata w (home_addr l i))) [0..<logged_n l]))
           (disk w) (slot_addr l i) = bdata w (home_addr l i)"
proof -
  obtain es where es: "trace (fold (write_log_step l) [0..<logged_n l] w) = trace w @ es"
      "disk (fold (write_log_step l) [0..<logged_n l] w) = replay es (disk w)"
    using fold_write_log_replay by blast
  have "es = concat (map (\<lambda>i. write_log_events l i (bdata w (home_addr l i))) [0..<logged_n l])"
    using es(1) write_log_fold_trace [OF assms(1), of w] by simp
  then show ?thesis
    using write_log_fold_slot(2) [OF assms, of w] es(2) by simp
qed

subsection \<open>Admission\<close>

lemma begin_op_loop_returned:
  "begin_op_loop wakes l w = Inr (Returned l', w') \<Longrightarrow>
     \<exists>l0 \<in> set (l # wakes). admits l0 \<and> reservation_defined l0 \<and>
        l' = l0\<lparr>log_outstanding := log_outstanding l0 + 1\<rparr>"
  and begin_op_sleep_returned:
  "begin_op_sleep wakes w = Inr (Returned l', w') \<Longrightarrow>
     \<exists>l0 \<in> set wakes. admits l0 \<and> reservation_defined l0 \<and>
        l' = l0\<lparr>log_outstanding := log_outstanding l0 + 1\<rparr>"
proof (induction wakes l w and wakes w rule: begin_op_loop_begin_op_sleep.induct)
  case (1 wakes l w)
  then show ?case
    by (auto simp: admits_def reservation_defined_def split: if_splits)
next
  case (2 w)
  then show ?case by simp
next
  case (3 l wakes w)
  then show ?case by simp
qed

lemma begin_op_loop_asleep:
  "\<forall>l0 \<in> set (l # wakes). \<not> admits l0 \<and> (log_committing l0 = 0 \<longrightarrow> reservation_defined l0) \<Longrightarrow>
     begin_op_loop wakes l w =
       Inr (Asleep, w\<lparr>trace := trace w @ replicate (Suc (length wakes)) Sleep\<rparr>)"
  and begin_op_sleep_asleep:
  "\<forall>l0 \<in> set wakes. \<not> admits l0 \<and> (log_committing l0 = 0 \<longrightarrow> reservation_defined l0) \<Longrightarrow>
     begin_op_sleep wakes w =
       Inr (Asleep, w\<lparr>trace := trace w @ replicate (length wakes) Sleep\<rparr>)"
proof (induction wakes l w and wakes w rule: begin_op_loop_begin_op_sleep.induct)
  case (1 wakes l w)
  then show ?case
    by (auto simp: admits_def reservation_defined_def emit_def replicate_app_Cons_same)
next
  case (2 w)
  then show ?case by simp
next
  case (3 l wakes w)
  then show ?case by simp
qed

subsection \<open>log_write\<close>

lemma log_write_scan_props:
  "i \<le> logged_n l \<Longrightarrow>
     i \<le> log_write_scan i blockno l \<and> log_write_scan i blockno l \<le> logged_n l \<and>
     (log_write_scan i blockno l < logged_n l \<longrightarrow>
        lh_block (log_lh l) (log_write_scan i blockno l) = blockno) \<and>
     (\<forall>j. i \<le> j \<and> j < log_write_scan i blockno l \<longrightarrow> lh_block (log_lh l) j \<noteq> blockno)"
proof (induction "logged_n l - i" arbitrary: i)
  case 0
  then have "\<not> int i < sint (lh_n (log_lh l))" by (simp add: logged_n_def)
  then have "log_write_scan i blockno l = i" by (subst log_write_scan.simps) simp
  then show ?case using 0 by auto
next
  case (Suc k)
  then have i: "i < logged_n l" and k: "k = logged_n l - Suc i" by simp_all
  then have ii: "int i < sint (lh_n (log_lh l))"
    by (simp add: logged_n_def zless_nat_eq_int_zless)
  show ?case
  proof (cases "lh_block (log_lh l) i = blockno")
    case True
    then have "log_write_scan i blockno l = i" using ii by (subst log_write_scan.simps) simp
    then show ?thesis using True i by auto
  next
    case False
    then have s: "log_write_scan i blockno l = log_write_scan (Suc i) blockno l"
      using ii by (subst log_write_scan.simps) simp
    have "Suc i \<le> logged_n l" using i by simp
    from Suc.hyps(1) [OF k this] show ?thesis
      unfolding s using False by (auto simp: le_Suc_eq Suc_le_eq elim: le_neq_implies_less)
  qed
qed

lemma log_write_scan_found:
  assumes "blockno \<in> set (logged l)"
  shows "log_write_scan 0 blockno l < logged_n l"
    and "lh_block (log_lh l) (log_write_scan 0 blockno l) = blockno"
proof -
  from assms obtain j where j: "j < logged_n l" "lh_block (log_lh l) j = blockno"
    by (auto simp: logged_def)
  have p: "log_write_scan 0 blockno l \<le> logged_n l"
      "log_write_scan 0 blockno l < logged_n l \<longrightarrow>
        lh_block (log_lh l) (log_write_scan 0 blockno l) = blockno"
      "\<forall>j. j < log_write_scan 0 blockno l \<longrightarrow> lh_block (log_lh l) j \<noteq> blockno"
    using log_write_scan_props [of 0 l blockno] by simp_all
  show "log_write_scan 0 blockno l < logged_n l"
  proof (rule ccontr)
    assume "\<not> log_write_scan 0 blockno l < logged_n l"
    then have "log_write_scan 0 blockno l = logged_n l" using p(1) by simp
    then show False using p(3) j by simp
  qed
  then show "lh_block (log_lh l) (log_write_scan 0 blockno l) = blockno" using p(2) by simp
qed

lemma log_write_scan_new:
  assumes "blockno \<notin> set (logged l)"
  shows "log_write_scan 0 blockno l = logged_n l"
proof (rule ccontr)
  assume a: "log_write_scan 0 blockno l \<noteq> logged_n l"
  have p: "log_write_scan 0 blockno l \<le> logged_n l"
      "log_write_scan 0 blockno l < logged_n l \<longrightarrow>
        lh_block (log_lh l) (log_write_scan 0 blockno l) = blockno"
    using log_write_scan_props [of 0 l blockno] by simp_all
  then have "log_write_scan 0 blockno l < logged_n l" using a by simp
  then have "blockno \<in> set (logged l)" using p(2) by (force simp: logged_def)
  then show False using assms by simp
qed

lemma int_logged_n: "0 \<le> sint (lh_n (log_lh l)) \<Longrightarrow> int (logged_n l) = sint (lh_n (log_lh l))"
  by (simp add: logged_n_def)

text \<open>What one successful call does, from a state with \<open>0 \<le> lh.n\<close>.\<close>

lemma log_write_step:
  assumes "0 \<le> sint (lh_n (log_lh l))" "log_write b l w = Inr (l', w')"
  shows "snd b \<in> set (logged l) \<longrightarrow>
           l' = l \<and> w' = w\<lparr>trace := trace w @ [Acquire, Release]\<rparr>"
    and "snd b \<notin> set (logged l) \<longrightarrow>
           l' = l\<lparr>log_lh := (log_lh l)\<lparr>lh_block := (lh_block (log_lh l))(logged_n l := snd b),
                   lh_n := lh_n (log_lh l) + 1\<rparr>\<rparr> \<and>
           w' = w\<lparr>trace := trace w @ [Acquire, Bpin b, Release]\<rparr> \<and>
           sint (lh_n (log_lh l')) = sint (lh_n (log_lh l)) + 1 \<and>
           logged l' = logged l @ [snd b]"
proof -
  have c: "\<not> LOGSIZE \<le> sint (lh_n (log_lh l))" "int32 (sint (log_size l) - 1)"
      "\<not> sint (log_size l) - 1 \<le> sint (lh_n (log_lh l))" "\<not> sint (log_outstanding l) < 1"
    using assms(2) by (auto simp: log_write_def split: if_splits)
  have r: "log_write b l w =
     (let i = log_write_scan 0 (snd b) l;
          l' = l\<lparr>log_lh := (log_lh l)\<lparr>lh_block := (lh_block (log_lh l))(i := snd b)\<rparr>\<rparr>
      in if int i = sint (lh_n (log_lh l)) then
           Inr (l'\<lparr>log_lh := (log_lh l')\<lparr>lh_n := lh_n (log_lh l) + 1\<rparr>\<rparr>,
                w\<lparr>trace := trace w @ [Acquire, Bpin b, Release]\<rparr>)
         else Inr (l', w\<lparr>trace := trace w @ [Acquire, Release]\<rparr>))"
    using c by (simp add: log_write_def Let_def bpin_def emit_def)
  show "snd b \<in> set (logged l) \<longrightarrow>
           l' = l \<and> w' = w\<lparr>trace := trace w @ [Acquire, Release]\<rparr>"
  proof
    assume m: "snd b \<in> set (logged l)"
    have "int (log_write_scan 0 (snd b) l) \<noteq> sint (lh_n (log_lh l))"
      using log_write_scan_found(1) [OF m] int_logged_n [OF assms(1)] by simp
    moreover have "(lh_block (log_lh l))(log_write_scan 0 (snd b) l := snd b) = lh_block (log_lh l)"
      using log_write_scan_found(2) [OF m] by (simp add: fun_upd_idem)
    ultimately show "l' = l \<and> w' = w\<lparr>trace := trace w @ [Acquire, Release]\<rparr>"
      using assms(2) unfolding r by (simp add: Let_def)
  qed
  show "snd b \<notin> set (logged l) \<longrightarrow>
           l' = l\<lparr>log_lh := (log_lh l)\<lparr>lh_block := (lh_block (log_lh l))(logged_n l := snd b),
                   lh_n := lh_n (log_lh l) + 1\<rparr>\<rparr> \<and>
           w' = w\<lparr>trace := trace w @ [Acquire, Bpin b, Release]\<rparr> \<and>
           sint (lh_n (log_lh l')) = sint (lh_n (log_lh l)) + 1 \<and>
           logged l' = logged l @ [snd b]"
  proof
    assume m: "snd b \<notin> set (logged l)"
    have i: "log_write_scan 0 (snd b) l = logged_n l" by (rule log_write_scan_new [OF m])
    have l': "l' = l\<lparr>log_lh := (log_lh l)\<lparr>lh_block := (lh_block (log_lh l))(logged_n l := snd b),
                   lh_n := lh_n (log_lh l) + 1\<rparr>\<rparr>"
      and w': "w' = w\<lparr>trace := trace w @ [Acquire, Bpin b, Release]\<rparr>"
      using assms(2) int_logged_n [OF assms(1)] unfolding r i by (auto simp: Let_def)
    have "int32 (sint (lh_n (log_lh l)) + 1)"
      using c(1) assms(1) by (simp add: int32_def LOGSIZE_def)
    then have s: "sint (lh_n (log_lh l')) = sint (lh_n (log_lh l)) + 1"
      by (simp add: l' sint_plus1)
    then have n: "logged_n l' = Suc (logged_n l)"
      using assms(1) by (simp add: logged_n_def nat_add_distrib)
    have "logged l' = logged l @ [snd b]"
      unfolding logged_def n by (simp add: l')
    then show "l' = l\<lparr>log_lh := (log_lh l)\<lparr>lh_block := (lh_block (log_lh l))(logged_n l := snd b),
                   lh_n := lh_n (log_lh l) + 1\<rparr>\<rparr> \<and>
           w' = w\<lparr>trace := trace w @ [Acquire, Bpin b, Release]\<rparr> \<and>
           sint (lh_n (log_lh l')) = sint (lh_n (log_lh l)) + 1 \<and>
           logged l' = logged l @ [snd b]"
      using l' w' s by simp
  qed
qed

lemma log_writes_inv:
  assumes "0 \<le> sint (lh_n (log_lh l0))" "distinct (logged l0)" "log_writes bs l0 w0 = Inr (l, w)"
  shows "0 \<le> sint (lh_n (log_lh l)) \<and> distinct (logged l) \<and>
     set (logged l) = set (logged l0) \<union> snd ` set bs \<and> log_dev l = log_dev l0 \<and>
     (\<exists>es. trace w = trace w0 @ es \<and> unpinned es = [] \<and> set (pinned es) \<subseteq> set bs \<and>
           logged l = logged l0 @ map snd (pinned es))"
  using assms
proof (induction bs arbitrary: l0 w0)
  case Nil
  then show ?case by simp
next
  case (Cons b bs)
  from Cons.prems(3) obtain l1 w1 where
    s: "log_write b l0 w0 = Inr (l1, w1)" "log_writes bs l1 w1 = Inr (l, w)"
    by (auto simp: thn_eq_Inr)
  note st = log_write_step [OF Cons.prems(1) s(1)]
  show ?case
  proof (cases "snd b \<in> set (logged l0)")
    case True
    then have e: "l1 = l0" "w1 = w0\<lparr>trace := trace w0 @ [Acquire, Release]\<rparr>"
      using st(1) by simp_all
    from Cons.IH [OF _ _ s(2)] Cons.prems(1,2) obtain es where
      ih: "0 \<le> sint (lh_n (log_lh l))" "distinct (logged l)"
        "set (logged l) = set (logged l0) \<union> snd ` set bs" "log_dev l = log_dev l0"
        "trace w = trace w1 @ es" "unpinned es = []" "set (pinned es) \<subseteq> set bs"
        "logged l = logged l0 @ map snd (pinned es)"
      unfolding e(1) by blast
    have "trace w = trace w0 @ ([Acquire, Release] @ es) \<and> unpinned ([Acquire, Release] @ es) = [] \<and>
        set (pinned ([Acquire, Release] @ es)) \<subseteq> set (b # bs) \<and>
        logged l = logged l0 @ map snd (pinned ([Acquire, Release] @ es))"
      using ih by (auto simp: e(2))
    moreover have "set (logged l) = set (logged l0) \<union> snd ` set (b # bs)"
      using ih(3) True by auto
    ultimately show ?thesis using ih(1,2,4) by blast
  next
    case False
    then have e: "w1 = w0\<lparr>trace := trace w0 @ [Acquire, Bpin b, Release]\<rparr>"
        "sint (lh_n (log_lh l1)) = sint (lh_n (log_lh l0)) + 1"
        "logged l1 = logged l0 @ [snd b]"
      using st(2) by blast+
    have d: "log_dev l1 = log_dev l0"
      using st(2) False by simp
    have p: "0 \<le> sint (lh_n (log_lh l1))" "distinct (logged l1)"
      using e(2,3) Cons.prems(1,2) False by simp_all
    from Cons.IH [OF p s(2)] obtain es where
      ih: "0 \<le> sint (lh_n (log_lh l))" "distinct (logged l)"
        "set (logged l) = set (logged l1) \<union> snd ` set bs" "log_dev l = log_dev l1"
        "trace w = trace w1 @ es" "unpinned es = []" "set (pinned es) \<subseteq> set bs"
        "logged l = logged l1 @ map snd (pinned es)"
      by blast
    have "trace w = trace w0 @ ([Acquire, Bpin b, Release] @ es) \<and>
        unpinned ([Acquire, Bpin b, Release] @ es) = [] \<and>
        set (pinned ([Acquire, Bpin b, Release] @ es)) \<subseteq> set (b # bs) \<and>
        logged l = logged l0 @ map snd (pinned ([Acquire, Bpin b, Release] @ es))"
      using ih by (auto simp: e)
    moreover have "set (logged l) = set (logged l0) \<union> snd ` set (b # bs)"
      using ih(3) by (auto simp: e(3))
    ultimately show ?thesis using ih(1,2,4) d by (simp only:) blast
  qed
qed

lemma logged_empty: "lh_n (log_lh l) = 0 \<Longrightarrow> logged l = []"
  by (simp add: logged_def logged_n_def)

subsection \<open>Recovery\<close>

lemma head_block_idem: "head_block (clear_n l) (head_block (clear_n l) hb) = head_block (clear_n l) hb"
  by (simp add: head_block_def fun_eq_iff)

lemma head_block_clear_0 [simp]: "head_block (clear_n l) hb 0 = 0"
  by (simp add: head_block_def)

lemma read_header_clear:
  "hb 0 = 0 \<Longrightarrow> read_header (clear_n l) hb = clear_n l"
  by (simp add: read_header_def clear_n_def)

lemma clear_n_idem [simp]: "clear_n (clear_n l) = clear_n l"
  by (simp add: clear_n_def)

lemma recover_world_disk_head:
  "disk (recover_world l w) (head_addr l) = bdata (recover_world l w) (head_addr l)"
  by (simp add: recover_world_def Let_def disk_write_head_step bdata_write_head_step)

lemma recover_world_head_0: "bdata (recover_world l w) (head_addr l) 0 = 0"
  by (simp add: recover_world_def Let_def bdata_write_head_step)

lemma held_recover_world [simp]: "held (recover_world l w) = held w"
  by (simp add: recover_world_def Let_def)

subsection \<open>Crashes\<close>

text \<open>
  The calls that follow the commit point, in \<^verbatim>\<open>commit\<close> and in recovery alike: some calls
  that write nothing, the installation, the header write with \<open>n \<le> 0\<close>. Stopped
  anywhere, they leave a disk that recovery will complete or that is complete.
\<close>

lemma install_clear_prefix:
  assumes s: "log_sound l" and p: "pending l v d" and x: "written xs = {}"
    and b: "sint (b0 0) \<le> 0"
  shows "pending l v (replay (take k (xs @
           concat (map (\<lambda>i. install_events r l i (v (home_addr l i))) [0..<logged_n l]) @
           head_events l b0)) d) \<or>
         settled l v (replay (take k (xs @
           concat (map (\<lambda>i. install_events r l i (v (home_addr l i))) [0..<logged_n l]) @
           head_events l b0)) d)"
proof -
  define e3 where "e3 = concat (map (\<lambda>i. install_events r l i (v (home_addr l i))) [0..<logged_n l])"
  define es where "es = xs @ e3 @ head_events l b0"
  define t where "t = take k es"
  let ?val = "\<lambda>a. if a = head_addr l then b0 else v a"
  have hh: "head_addr l \<notin> set (homes l)" by (rule head_not_in_homes [OF s])
  have w3: "written e3 = set (homes l)" by (simp add: e3_def homes_def)
  have nx: "Bwrite a c \<notin> set xs" for a c
  proof
    assume "Bwrite a c \<in> set xs"
    then have "a \<in> written xs" unfolding written_iff by blast
    then show False using x by simp
  qed
  have val: "\<forall>a c. Bwrite a c \<in> set t \<longrightarrow> c = ?val a"
  proof (intro allI impI)
    fix a c
    assume "Bwrite a c \<in> set t"
    then have "Bwrite a c \<in> set es" unfolding t_def by (rule in_set_takeD)
    then consider "Bwrite a c \<in> set e3" | "Bwrite a c \<in> set (head_events l b0)"
      using nx by (auto simp: es_def)
    then show "c = ?val a"
    proof cases
      case 1
      then obtain i where "i \<in> set [0..<logged_n l]" "a = home_addr l i" "c = v (home_addr l i)"
        unfolding e3_def
        using Bwrite_in_concat_install [of a c r l "\<lambda>i. v (home_addr l i)"] by blast
      then show ?thesis using home_not_head [OF s] by auto
    next
      case 2
      then show ?thesis by (simp add: head_events_def)
    qed
  qed
  have rv: "replay t d a = (if a \<in> written t then ?val a else d a)" for a
    by (rule replay_val [OF val])
  have we: "written es = insert (head_addr l) (set (homes l))"
    by (simp add: es_def x w3)
  have sub: "written t \<subseteq> insert (head_addr l) (set (homes l))"
    using written_take [of k es] unfolding we t_def .
  have "pending l v (replay t d) \<or> settled l v (replay t d)"
  proof (cases "head_addr l \<in> written t")
    case False
    have "replay t d (head_addr l) = d (head_addr l)" using False by (simp add: rv)
    moreover have "replay t d (slot_addr l i) = d (slot_addr l i)" if "i < logged_n l" for i
    proof -
      have "slot_addr l i \<notin> written t"
        using sub slot_not_in_homes [OF s that] slot_not_head [OF s that] by auto
      then show ?thesis by (simp add: rv)
    qed
    ultimately have "pending l v (replay t d)"
      using p by (simp add: pending_def)
    then show ?thesis by simp
  next
    case True
    then obtain c where c: "Bwrite (head_addr l) c \<in> set t" by (auto simp: written_iff)
    have "Bwrite (head_addr l) c \<notin> set (xs @ e3)"
    proof
      assume "Bwrite (head_addr l) c \<in> set (xs @ e3)"
      then have "head_addr l \<in> written (xs @ e3)" unfolding written_iff by blast
      then show False using hh by (simp add: x w3)
    qed
    then have "t = (xs @ e3) @ take (k - length (xs @ e3)) (head_events l b0)"
      using take_reaches [of "Bwrite (head_addr l) c" k "xs @ e3" "head_events l b0"] c
      unfolding t_def es_def by simp
    then have "written (xs @ e3) \<subseteq> written t"
      by (metis written_append Un_upper1)
    then have hw: "set (homes l) \<subseteq> written t" by (simp add: x w3)
    have "replay t d (head_addr l) = b0" using True by (simp add: rv)
    moreover have "replay t d h = v h" if "h \<in> set (homes l)" for h
      using that hw hh by (auto simp: rv)
    ultimately have "settled l v (replay t d)"
      using b by (simp add: settled_def)
    then show ?thesis by simp
  qed
  then show ?thesis unfolding t_def es_def e3_def .
qed

lemma commit_crash:
  assumes s: "log_sound l" and z: "sint (disk w (head_addr l) 0) \<le> 0"
  shows "(head_addr l \<notin> written (take k (commit_events l w)) \<longrightarrow>
            settled l (disk w) (replay (take k (commit_events l w)) (disk w))) \<and>
         (head_addr l \<in> written (take k (commit_events l w)) \<longrightarrow>
            pending l (bdata w) (replay (take k (commit_events l w)) (disk w)) \<or>
            settled l (bdata w) (replay (take k (commit_events l w)) (disk w)))"
proof -
  define e1 where "e1 = concat (map (\<lambda>i. write_log_events l i (bdata w (home_addr l i))) [0..<logged_n l])"
  define hn where "hn = head_block l (bdata w (head_addr l))"
  define e3 where "e3 = concat (map (\<lambda>i. install_events 0 l i (bdata w (home_addr l i))) [0..<logged_n l])"
  define b0 where "b0 = head_block (clear_n l) hn"
  define p where "p = e1 @ [Bread (head_addr l)]"
  define r where "r = [Brelse (head_addr l)] @ e3 @ head_events l b0"
  define t where "t = take k (commit_events l w)"
  have es: "commit_events l w = p @ Bwrite (head_addr l) hn # r"
    by (simp add: commit_events_def p_def r_def e1_def e3_def hn_def b0_def head_events_def)
  have wp: "written p = set (slots l)" by (simp add: p_def e1_def slots_def)
  have hs: "head_addr l \<notin> set (slots l)" by (rule head_not_in_slots [OF s])
  consider (before) "t = take k p" | (after) "t = p @ Bwrite (head_addr l) hn # take (k - length p - 1) r"
    using take_append_Cons_cases [of k p "Bwrite (head_addr l) hn" r] unfolding t_def es by blast
  then have "(head_addr l \<notin> written t \<longrightarrow> settled l (disk w) (replay t (disk w))) \<and>
         (head_addr l \<in> written t \<longrightarrow>
            pending l (bdata w) (replay t (disk w)) \<or> settled l (bdata w) (replay t (disk w)))"
  proof cases
    case before
    have sub: "written t \<subseteq> set (slots l)"
      unfolding before using written_take [of k p] by (simp add: wp)
    then have nh: "head_addr l \<notin> written t" using hs by auto
    have "replay t (disk w) (head_addr l) = disk w (head_addr l)"
      by (rule replay_frame [OF nh])
    moreover have "replay t (disk w) h = disk w h" if hm: "h \<in> set (homes l)" for h
    proof -
      obtain i where "i < logged_n l" "h = home_addr l i" using hm by (auto simp: homes_def)
      then have "h \<notin> set (slots l)" using home_not_in_slots [OF s] by simp
      then have "h \<notin> written t" using sub by auto
      then show ?thesis by (rule replay_frame)
    qed
    ultimately have "settled l (disk w) (replay t (disk w))"
      using z by (simp add: settled_def)
    then show ?thesis using nh by simp
  next
    case after
    define d1 where "d1 = (replay e1 (disk w))(head_addr l := hn)"
    have rt: "replay t (disk w) = replay (take (k - length p - 1) r) d1"
      unfolding after d1_def p_def by (simp only: replay_append replay.simps)
    have ht: "head_addr l \<in> written t" unfolding after by simp
    have pd: "pending l (bdata w) d1"
      unfolding pending_def
    proof (intro conjI allI impI)
      show "d1 (head_addr l) 0 = lh_n (log_lh l)"
        by (simp add: d1_def hn_def head_block_def)
      fix i assume i: "i < logged_n l"
      show "d1 (head_addr l) (Suc i) = lh_block (log_lh l) i"
        using i by (simp add: d1_def hn_def head_block_def)
      have "d1 (slot_addr l i) = replay e1 (disk w) (slot_addr l i)"
        using slot_not_head [OF s i] by (simp add: d1_def)
      then show "d1 (slot_addr l i) = bdata w (home_addr l i)"
        unfolding e1_def using write_log_replay_slot [OF s i, of w] by simp
    qed
    have b: "sint (b0 0) \<le> 0" by (simp add: b0_def)
    have "pending l (bdata w) (replay (take (k - length p - 1) r) d1) \<or>
          settled l (bdata w) (replay (take (k - length p - 1) r) d1)"
      unfolding r_def e3_def
      using install_clear_prefix [OF s pd, of "[Brelse (head_addr l)]" b0 "k - length p - 1" 0] b
      by simp
    then show ?thesis using ht rt by simp
  qed
  then show ?thesis unfolding t_def .
qed

lemma boot_eq: "boot l lb d = recover_from_log (boot_log l lb) (reboot d)"
  by (simp add: boot_def boot_log_def initlog_def BSIZE_def sizeof_logheader_def LOGSIZE_def)

lemma boot_log_simps [simp]:
  "head_addr (boot_log l lb) = head_addr l" "log_start (boot_log l lb) = log_start l"
  "log_dev (boot_log l lb) = log_dev l"
  by (simp_all add: boot_log_def head_addr_def)

lemma reboot_simps [simp]:
  "bdata (reboot d) = d" "disk (reboot d) = d" "held (reboot d) = {}" "trace (reboot d) = []"
  by (simp_all add: reboot_def bdata_def fun_eq_iff)

lemma head_events_boot_log [simp]: "head_events (boot_log l lb) = head_events l"
  by (rule head_events_cong) simp

lemma boot_settled:
  assumes s: "log_sound l" and st: "settled l v d"
  shows "\<exists>l1 w1. boot l lb d = Inr (l1, w1) \<and> settled l v (disk w1) \<and>
           (\<forall>k. settled l v (replay (take k (trace w1)) d))"
proof -
  define l1 where "l1 = read_header (boot_log l lb) (d (head_addr l))"
  define b0 where "b0 = head_block (clear_n l1) (d (head_addr l))"
  define w1 where "w1 = recover_world (boot_log l lb) (reboot d)"
  have z: "sint (d (head_addr l) 0) \<le> 0" using st by (simp add: settled_def)
  then have n0: "nat (sint (d (head_addr l) 0)) = 0" by simp
  have r: "boot l lb d = Inr (clear_n l1, w1)"
    unfolding boot_eq recover_iff using z by (simp add: l1_def w1_def)
  have w1: "w1 = write_head_step (clear_n l1) (read_head_step (boot_log l lb) (reboot d))"
    unfolding w1_def recover_world_def Let_def by (simp add: n0 l1_def)
  have h1: "head_addr (clear_n l1) = head_addr l" by (simp add: l1_def)
  have tr: "trace w1 = [Bread (head_addr l), Brelse (head_addr l)] @ head_events l b0"
    unfolding w1 by (simp add: trace_write_head_step trace_read_head_step b0_def l1_def)
  have b: "b0 0 = 0" by (simp add: b0_def)
  have hh: "head_addr l \<notin> set (homes l)" by (rule head_not_in_homes [OF s])
  have pre: "settled l v (replay (take k (trace w1)) d)" for k
  proof -
    define t where "t = take k (trace w1)"
    have "\<forall>a c. Bwrite a c \<in> set t \<longrightarrow> c = (\<lambda>a. b0) a"
    proof (intro allI impI)
      fix a c assume "Bwrite a c \<in> set t"
      then have "Bwrite a c \<in> set (trace w1)" unfolding t_def by (rule in_set_takeD)
      then show "c = b0" by (simp add: tr head_events_def)
    qed
    then have rv: "replay t d a = (if a \<in> written t then b0 else d a)" for a
      by (rule replay_val)
    have sub: "written t \<subseteq> {head_addr l}"
      using written_take [of k "trace w1"] unfolding t_def by (simp add: tr)
    have "sint (replay t d (head_addr l) 0) \<le> 0" using z b by (simp add: rv)
    moreover have "replay t d h = v h" if hm: "h \<in> set (homes l)" for h
    proof -
      have "h \<notin> written t" using sub hm hh by auto
      then show ?thesis using st hm by (simp add: rv settled_def)
    qed
    ultimately show ?thesis unfolding t_def by (simp add: settled_def)
  qed
  obtain es where es: "trace w1 = trace (reboot d) @ es" "disk w1 = replay es (disk (reboot d))"
    unfolding w1_def using recover_world_replay by blast
  then have "disk w1 = replay (take (length (trace w1)) (trace w1)) d" by simp
  then have "settled l v (disk w1)" using pre [of "length (trace w1)"] by simp
  then show ?thesis using r pre by blast
qed

lemma boot_pending:
  assumes s: "log_sound l" and n: "0 < sint (lh_n (log_lh l))" and p: "pending l v d"
  shows "\<exists>l1 w1. boot l lb d = Inr (l1, w1) \<and> settled l v (disk w1) \<and>
           (\<forall>k. pending l v (replay (take k (trace w1)) d) \<or>
                settled l v (replay (take k (trace w1)) d))"
proof -
  define l1 where "l1 = read_header (boot_log l lb) (d (head_addr l))"
  define w0 where "w0 = read_head_step (boot_log l lb) (reboot d)"
  define w3 where "w3 = fold (install_step 1 l1) [0..<logged_n l1] w0"
  define b0 where "b0 = head_block (clear_n l1) (bdata w3 (head_addr l))"
  define w1 where "w1 = recover_world (boot_log l lb) (reboot d)"
  have h0: "d (head_addr l) 0 = lh_n (log_lh l)" using p by (simp add: pending_def)
  have n1: "logged_n l1 = logged_n l" by (simp add: l1_def h0 logged_n_def)
  have st: "log_start l1 = log_start l" and dv: "log_dev l1 = log_dev l"
    and hd: "head_addr l1 = head_addr l" and ln: "lh_n (log_lh l1) = lh_n (log_lh l)"
    by (simp_all add: l1_def h0)
  have bl: "lh_block (log_lh l1) i = lh_block (log_lh l) i" if "i < logged_n l" for i
    using that p by (simp add: l1_def read_header_def h0 pending_def logged_n_def)
  have sl: "slot_addr l1 = slot_addr l" by (simp add: slot_addr_def st dv fun_eq_iff)
  have hm: "home_addr l1 i = home_addr l i" if "i < logged_n l" for i
    using bl [OF that] by (simp add: home_addr_def dv)
  have hs: "homes l1 = homes l" unfolding homes_def n1 using hm by simp
  have ss: "slots l1 = slots l" unfolding slots_def n1 sl ..
  have s1: "log_sound l1"
    using s unfolding log_sound_def hs ss hd n1 st ln .
  have w1: "w1 = write_head_step (clear_n l1) w3"
    unfolding w1_def recover_world_def Let_def w3_def w0_def l1_def by simp
  have r: "boot l lb d = Inr (clear_n l1, w1)"
    unfolding boot_eq recover_iff
  proof (intro conjI)
    show "head_addr (boot_log l lb) \<notin> held (reboot d)" by simp
    show "0 < sint (bdata (reboot d) (head_addr (boot_log l lb)) 0) \<longrightarrow>
        head_fits (bdata (reboot d) (head_addr (boot_log l lb)) 0)"
      using s by (simp add: h0 head_fits_def log_sound_def)
    show "\<forall>i<nat (sint (bdata (reboot d) (head_addr (boot_log l lb)) 0)).
       loop_guard (read_header (boot_log l lb) (bdata (reboot d) (head_addr (boot_log l lb)))) i
        (reboot d) = None"
      using guards_ok [OF s1, of "reboot d"] n1
      by (simp add: l1_def [symmetric] h0 logged_n_def)
    show "clear_n l1 = clear_n (read_header (boot_log l lb) (bdata (reboot d) (head_addr (boot_log l lb))))"
      by (simp add: l1_def)
    show "w1 = recover_world (boot_log l lb) (reboot d)" by (simp add: w1_def)
  qed
  have c: "\<forall>i < logged_n l1. bdata w0 (slot_addr l1 i) = v (home_addr l i)"
    using p by (simp add: w0_def sl n1 pending_def)
  have t3: "trace w3 = trace w0 @ concat (map (\<lambda>i. install_events 1 l1 i (v (home_addr l i))) [0..<logged_n l1])"
    unfolding w3_def by (rule install_fold_trace [OF s1 c])
  have m: "map (\<lambda>i. install_events 1 l1 i (v (home_addr l i))) [0..<logged_n l1]
      = map (\<lambda>i. install_events 1 l i (v (home_addr l i))) [0..<logged_n l]"
    unfolding n1 using hm by (simp add: install_events_def sl)
  have he: "head_events l1 = head_events l"
    by (rule head_events_cong) (simp add: hd)
  have tr: "trace w1 = [Bread (head_addr l), Brelse (head_addr l)] @
      concat (map (\<lambda>i. install_events 1 l i (v (home_addr l i))) [0..<logged_n l]) @
      head_events l b0"
    unfolding w1 by (simp add: trace_write_head_step t3 m he w0_def trace_read_head_step hd b0_def)
  have b: "sint (b0 0) \<le> 0" by (simp add: b0_def)
  have pre: "pending l v (replay (take k (trace w1)) d) \<or> settled l v (replay (take k (trace w1)) d)" for k
    unfolding tr
    using install_clear_prefix [OF s p, of "[Bread (head_addr l), Brelse (head_addr l)]" b0 k 1] b
    by simp
  obtain es where es: "trace w1 = trace (reboot d) @ es" "disk w1 = replay es (disk (reboot d))"
    unfolding w1_def using recover_world_replay by blast
  then have dw: "disk w1 = replay (take (length (trace w1)) (trace w1)) d" by simp
  have "disk w1 (head_addr l) 0 = 0"
    unfolding w1 by (simp add: disk_write_head_step hd)
  then have "\<not> pending l v (disk w1)" using n by (auto simp: pending_def)
  then have "settled l v (disk w1)" using pre [of "length (trace w1)"] dw by simp
  then show ?thesis using r pre by blast
qed

lemma two_boots:
  assumes s: "log_sound l" and n: "0 < sint (lh_n (log_lh l))"
    and d: "pending l v d \<or> settled l v d"
  shows "\<exists>l1 w1. boot l lb d = Inr (l1, w1) \<and> (\<forall>h \<in> set (homes l). disk w1 h = v h) \<and>
     (\<forall>k2 lb2. \<exists>l2 w2. boot l lb2 (crash_disk (trace w1) k2 d) = Inr (l2, w2) \<and>
        (\<forall>h \<in> set (homes l). disk w2 h = v h))"
proof -
  have one: "\<exists>l1 w1. boot l lb d = Inr (l1, w1) \<and> settled l v (disk w1) \<and>
           (\<forall>k. pending l v (replay (take k (trace w1)) d) \<or>
                settled l v (replay (take k (trace w1)) d))"
    if "pending l v d \<or> settled l v d" for d lb
    using that boot_pending [OF s n, of v d lb] boot_settled [OF s, of v d lb] by blast
  from one [OF d] obtain l1 w1 where
    b1: "boot l lb d = Inr (l1, w1)" "settled l v (disk w1)"
      "\<And>k. pending l v (replay (take k (trace w1)) d) \<or> settled l v (replay (take k (trace w1)) d)"
    by blast
  have "\<exists>l2 w2. boot l lb2 (crash_disk (trace w1) k2 d) = Inr (l2, w2) \<and>
        (\<forall>h \<in> set (homes l). disk w2 h = v h)" for k2 lb2
    using one [OF b1(3) [of k2], of lb2] unfolding crash_disk_def settled_def by blast
  then show ?thesis using b1(1,2) unfolding settled_def by blast
qed

subsection \<open>The scenarios\<close>

lemma ex_log_sound2: "log_sound ((ex_log 2 out)\<lparr>log_outstanding := a, log_committing := b\<rparr>)"
proof -
  have n: "logged_n ((ex_log 2 out)\<lparr>log_outstanding := a, log_committing := b\<rparr>) = 2"
    by (simp add: logged_n_def ex_log_def)
  show ?thesis
    unfolding log_sound_def homes_def slots_def n upt2
    by (simp add: home_addr_def slot_addr_def head_addr_def ex_log_def LOGSIZE_def int32_def)
qed

lemma ex_log_sound: "log_sound (ex_log 2 1)"
  using ex_log_sound2 [where out = 1 and a = 1 and b = 0] by (simp add: ex_log_def)

lemma ex_log_writes:
  "\<exists>l w. log_writes [(1, 100), (1, 101), (1, 100)] (ex_log 0 1) ex_world = Inr (l, w)"
  by (simp add: log_write_def log_write_scan.simps Let_def bpin_def emit_def ex_log_def
      LOGSIZE_def int32_def)

lemma ex_log_writes_val:
  "log_writes [(1, 100), (1, 101), (1, 100)] (ex_log 0 1) ex_world =
     Inr (ex_log 2 1, ex_world\<lparr>trace := [Acquire, Bpin (1, 100), Release,
        Acquire, Bpin (1, 101), Release, Acquire, Release]\<rparr>)"
  by (simp add: log_write_def log_write_scan.simps Let_def bpin_def emit_def ex_log_def
      ex_world_def LOGSIZE_def int32_def fun_eq_iff)

lemma ex_recover:
  "recover_from_log (ex_log 0 0) (reboot ex_disk) =
     Inr (clear_n (read_header (ex_log 0 0) (ex_disk (1, 2))), recover_world (ex_log 0 0) (reboot ex_disk))"
proof -
  have h: "head_addr (ex_log 0 0) = (1, 2)" by (simp add: head_addr_def ex_log_def)
  have b: "bdata (reboot ex_disk) = ex_disk" by (simp add: bdata_def reboot_def fun_eq_iff)
  have z: "ex_disk (1, 2) 0 = 1" by (simp add: ex_disk_def)
  have g: "loop_guard (read_header (ex_log 0 0) (ex_disk (1, 2))) 0 (reboot ex_disk) = None"
    by (simp add: loop_guard_def read_header_def ex_log_def ex_disk_def reboot_def int32_def
        LOGSIZE_def slot_addr_def home_addr_def)
  show ?thesis
    unfolding recover_iff h b z using g by (simp add: head_fits_def LOGSIZE_def reboot_def)
qed

lemma ex_recover_home: "disk (recover_world (ex_log 0 0) (reboot ex_disk)) (1, 100) = (\<lambda>i. 7)"
proof -
  have h: "head_addr (ex_log 0 0) = (1, 2)" by (simp add: head_addr_def ex_log_def)
  have b: "bdata (reboot ex_disk) = ex_disk" by (simp add: bdata_def reboot_def fun_eq_iff)
  have z: "ex_disk (1, 2) 0 = 1" by (simp add: ex_disk_def)
  show ?thesis
    unfolding recover_world_def Let_def h b
    by (simp add: z upt1 disk_write_head_step disk_install_step b)
      (simp add: head_addr_def home_addr_def slot_addr_def read_header_def ex_log_def ex_disk_def)
qed

lemma ex_committed:
  "\<not> committed (ex_log 2 1) (take 11 (commit_events (ex_log 2 1) ex_tx_world))"
  "committed (ex_log 2 1) (take 12 (commit_events (ex_log 2 1) ex_tx_world))"
proof -
  have n: "logged_n (ex_log 2 1) = 2" by (simp add: logged_n_def ex_log_def)
  have h: "head_addr (ex_log 2 1) = (1, 2)" by (simp add: head_addr_def ex_log_def)
  have s: "slot_addr (ex_log 2 1) 0 = (1, 3)" "slot_addr (ex_log 2 1) (Suc 0) = (1, 4)"
    by (simp_all add: slot_addr_def ex_log_def)
  show "\<not> committed (ex_log 2 1) (take 11 (commit_events (ex_log 2 1) ex_tx_world))"
    unfolding committed_def commit_events_def n upt2 h
    by (simp add: write_log_events_def head_events_def h s)
  show "committed (ex_log 2 1) (take 12 (commit_events (ex_log 2 1) ex_tx_world))"
    unfolding committed_def commit_events_def n upt2 h
    by (simp add: write_log_events_def head_events_def h s)
qed

section \<open>The claims\<close>

text \<open>
  Claim C1. Let \<^verbatim>\<open>commit\<close> run with \<open>lh.n > 0\<close> on a log whose home blocks lie outside
  the log region, with no buffer held and a header on disk that commits nothing. It
  returns, and the disk it leaves is the disk it found with its block-layer calls
  replayed. Stop the machine after any number \<open>k\<close> of these calls: the disk is what the
  first \<open>k\<close> calls wrote. \<^verbatim>\<open>initlog\<close> on that disk, with an empty cache and any contents
  of \<^verbatim>\<open>logV\<close>, returns; afterwards every home block of the transaction holds its on-disk
  contents of before the commit if no header write is among the \<open>k\<close> calls, and every
  home block holds its committed contents (those of its buffer when \<^verbatim>\<open>commit\<close> began) if
  one is: never some blocks old and some new. The same holds when that recovery is itself
  stopped after any number \<open>k2\<close> of its calls and \<^verbatim>\<open>initlog\<close> runs once more.
\<close>

theorem crash_atomicity:
  assumes "log_sound l" "0 < sint (lh_n (log_lh l))" "held w = {}"
    "sint (disk w (head_addr l) 0) \<le> 0"
  shows "\<exists>w'. commit l w = Inr (clear_n l, w') \<and> trace w' = trace w @ commit_events l w \<and>
     disk w' = crash_disk (commit_events l w) (length (commit_events l w)) (disk w) \<and>
     (\<forall>k lb. \<exists>l1 w1.
        boot l lb (crash_disk (commit_events l w) k (disk w)) = Inr (l1, w1) \<and>
        atomic_outcome l w (committed l (take k (commit_events l w))) (disk w1) \<and>
        (\<forall>k2 lb2. \<exists>l2 w2.
           boot l lb2 (crash_disk (trace w1) k2 (crash_disk (commit_events l w) k (disk w)))
             = Inr (l2, w2) \<and>
           atomic_outcome l w (committed l (take k (commit_events l w))) (disk w2)))"
proof -
  have c: "commit l w = Inr (clear_n l, commit_world l w)"
    by (rule commit_returns [OF assms(1-3)])
  have t: "trace (commit_world l w) = trace w @ commit_events l w"
    by (rule commit_world_trace [OF assms(1)])
  obtain es where "trace (commit_world l w) = trace w @ es"
      "disk (commit_world l w) = replay es (disk w)"
    using commit_world_replay by blast
  then have a: "disk (commit_world l w) =
      crash_disk (commit_events l w) (length (commit_events l w)) (disk w)"
    using t by (simp add: crash_disk_def)
  have "\<exists>l1 w1.
        boot l lb (crash_disk (commit_events l w) k (disk w)) = Inr (l1, w1) \<and>
        atomic_outcome l w (committed l (take k (commit_events l w))) (disk w1) \<and>
        (\<forall>k2 lb2. \<exists>l2 w2.
           boot l lb2 (crash_disk (trace w1) k2 (crash_disk (commit_events l w) k (disk w)))
             = Inr (l2, w2) \<and>
           atomic_outcome l w (committed l (take k (commit_events l w))) (disk w2))" for k lb
  proof (cases "committed l (take k (commit_events l w))")
    case True
    then have "pending l (bdata w) (crash_disk (commit_events l w) k (disk w)) \<or>
        settled l (bdata w) (crash_disk (commit_events l w) k (disk w))"
      using commit_crash [OF assms(1,4), of k] by (simp add: committed_def crash_disk_def)
    from two_boots [OF assms(1,2) this, of lb] show ?thesis
      using True by (simp add: atomic_outcome_def)
  next
    case False
    then have "pending l (disk w) (crash_disk (commit_events l w) k (disk w)) \<or>
        settled l (disk w) (crash_disk (commit_events l w) k (disk w))"
      using commit_crash [OF assms(1,4), of k] by (simp add: committed_def crash_disk_def)
    from two_boots [OF assms(1,2) this, of lb] show ?thesis
      using False by (simp add: atomic_outcome_def)
  qed
  then show ?thesis using c t a by blast
qed

text \<open>
Instance of C1, scenarios S5 and S6: blocks 100 and 101 hold 0 on disk and 170 and 187
  in their buffers. The header write of the commit is its twelfth call. Stopped after
  eleven calls, recovery leaves both blocks at 0; stopped after twelve, it installs both.
\<close>

theorem crash_atomicity_witness:
  "log_sound (ex_log 2 1) \<and> 0 < sint (lh_n (log_lh (ex_log 2 1))) \<and> held ex_tx_world = {} \<and>
   sint (disk ex_tx_world (head_addr (ex_log 2 1)) 0) \<le> 0 \<and>
   (\<exists>l1 w1. boot (ex_log 2 1) (ex_log 0 0)
        (crash_disk (commit_events (ex_log 2 1) ex_tx_world) 11 (disk ex_tx_world)) = Inr (l1, w1) \<and>
      disk w1 (1, 100) = (\<lambda>i. 0) \<and> disk w1 (1, 101) = (\<lambda>i. 0)) \<and>
   (\<exists>l1 w1. boot (ex_log 2 1) (ex_log 0 0)
        (crash_disk (commit_events (ex_log 2 1) ex_tx_world) 12 (disk ex_tx_world)) = Inr (l1, w1) \<and>
      disk w1 (1, 100) = (\<lambda>i. 170) \<and> disk w1 (1, 101) = (\<lambda>i. 187))"
proof -
  have a: "log_sound (ex_log 2 1)" by (rule ex_log_sound)
  have b: "0 < sint (lh_n (log_lh (ex_log 2 1)))" by (simp add: ex_log_def)
  have c: "held ex_tx_world = {}" by (simp add: ex_tx_world_def)
  have d: "sint (disk ex_tx_world (head_addr (ex_log 2 1)) 0) \<le> 0" by (simp add: ex_tx_world_def)
  have hs: "homes (ex_log 2 1) = [(1, 100), (1, 101)]"
    by (simp add: homes_def logged_n_def ex_log_def upt2 home_addr_def)
  have v: "bdata ex_tx_world (1, 100) = (\<lambda>i. 170)" "bdata ex_tx_world (1, 101) = (\<lambda>i. 187)"
      "disk ex_tx_world (1, 100) = (\<lambda>i. 0)" "disk ex_tx_world (1, 101) = (\<lambda>i. 0)"
    by (simp_all add: bdata_def ex_tx_world_def)
  note th = crash_atomicity [OF a b c d]
  from th obtain l1 w1 where
    "boot (ex_log 2 1) (ex_log 0 0)
        (crash_disk (commit_events (ex_log 2 1) ex_tx_world) 11 (disk ex_tx_world)) = Inr (l1, w1)"
    "atomic_outcome (ex_log 2 1) ex_tx_world
        (committed (ex_log 2 1) (take 11 (commit_events (ex_log 2 1) ex_tx_world))) (disk w1)"
    by blast
  then have e1: "\<exists>l1 w1. boot (ex_log 2 1) (ex_log 0 0)
        (crash_disk (commit_events (ex_log 2 1) ex_tx_world) 11 (disk ex_tx_world)) = Inr (l1, w1) \<and>
      disk w1 (1, 100) = (\<lambda>i. 0) \<and> disk w1 (1, 101) = (\<lambda>i. 0)"
    using ex_committed(1) by (auto simp: atomic_outcome_def hs v)
  from th obtain l2 w2 where
    "boot (ex_log 2 1) (ex_log 0 0)
        (crash_disk (commit_events (ex_log 2 1) ex_tx_world) 12 (disk ex_tx_world)) = Inr (l2, w2)"
    "atomic_outcome (ex_log 2 1) ex_tx_world
        (committed (ex_log 2 1) (take 12 (commit_events (ex_log 2 1) ex_tx_world))) (disk w2)"
    by blast
  then have e2: "\<exists>l1 w1. boot (ex_log 2 1) (ex_log 0 0)
        (crash_disk (commit_events (ex_log 2 1) ex_tx_world) 12 (disk ex_tx_world)) = Inr (l1, w1) \<and>
      disk w1 (1, 100) = (\<lambda>i. 170) \<and> disk w1 (1, 101) = (\<lambda>i. 187)"
    using ex_committed(2) by (auto simp: atomic_outcome_def hs v)
  show ?thesis using a b c d e1 e2 by blast
qed

text \<open>
  Claim C2. Whenever \<^verbatim>\<open>begin_op\<close> returns, the reservation invariant
  \<open>lh.n + outstanding * MAXOPBLOCKS \<le> LOGSIZE\<close> holds in the state it leaves, and the
  state in which it admitted the caller (the one at entry or one seen at a wake-up) had
  \<open>committing\<close> false and \<open>lh.n + (outstanding + 1) * MAXOPBLOCKS \<le> LOGSIZE\<close>; the
  caller's only change is \<open>outstanding + 1\<close>. When no state the caller sees passes the
  test (and C gives the test's arithmetic a value), the caller is asleep.
\<close>

theorem begin_op_reservation:
  "(begin_op wakes l w = Inr (Returned l', w') \<longrightarrow>
      sint (lh_n (log_lh l')) + sint (log_outstanding l') * MAXOPBLOCKS \<le> LOGSIZE \<and>
      (\<exists>l0 \<in> set (l # wakes). log_committing l0 = 0 \<and>
         sint (lh_n (log_lh l0)) + (sint (log_outstanding l0) + 1) * MAXOPBLOCKS \<le> LOGSIZE \<and>
         l' = l0\<lparr>log_outstanding := log_outstanding l0 + 1\<rparr> \<and>
         sint (log_outstanding l') = sint (log_outstanding l0) + 1)) \<and>
   ((\<forall>l0 \<in> set (l # wakes). \<not> admits l0 \<and> (log_committing l0 = 0 \<longrightarrow> reservation_defined l0)) \<longrightarrow>
      (\<exists>w'. begin_op wakes l w = Inr (Asleep, w')))"
proof (intro conjI impI)
  assume r: "begin_op wakes l w = Inr (Returned l', w')"
  then obtain l0 where l0: "l0 \<in> set (l # wakes)" "admits l0" "reservation_defined l0"
      "l' = l0\<lparr>log_outstanding := log_outstanding l0 + 1\<rparr>"
    unfolding begin_op_def using begin_op_loop_returned by blast
  have s: "sint (log_outstanding l') = sint (log_outstanding l0) + 1"
    using l0(3,4) by (simp add: reservation_defined_def sint_plus1)
  show "sint (lh_n (log_lh l')) + sint (log_outstanding l') * MAXOPBLOCKS \<le> LOGSIZE"
    using l0(2) s by (simp add: admits_def l0(4))
  show "\<exists>l0 \<in> set (l # wakes). log_committing l0 = 0 \<and>
         sint (lh_n (log_lh l0)) + (sint (log_outstanding l0) + 1) * MAXOPBLOCKS \<le> LOGSIZE \<and>
         l' = l0\<lparr>log_outstanding := log_outstanding l0 + 1\<rparr> \<and>
         sint (log_outstanding l') = sint (log_outstanding l0) + 1"
    using l0 s unfolding admits_def by blast
next
  assume "\<forall>l0 \<in> set (l # wakes). \<not> admits l0 \<and> (log_committing l0 = 0 \<longrightarrow> reservation_defined l0)"
  then show "\<exists>w'. begin_op wakes l w = Inr (Asleep, w')"
    unfolding begin_op_def using begin_op_loop_asleep by blast
qed

text \<open>
Instance of C2, scenario S4: with three calls in flight and five blocks logged a fourth
  caller sleeps; woken after the commit, it is admitted.
\<close>

theorem begin_op_reservation_witness:
  "(\<exists>l' w'. begin_op [ex_log 0 0] (ex_log 5 3) ex_world = Inr (Returned l', w') \<and>
      sint (lh_n (log_lh l')) + sint (log_outstanding l') * MAXOPBLOCKS \<le> LOGSIZE) \<and>
   (\<exists>w'. begin_op [] (ex_log 5 3) ex_world = Inr (Asleep, w'))"
proof -
  have a: "\<not> admits (ex_log 5 3)" "reservation_defined (ex_log 5 3)"
    by (simp_all add: admits_def reservation_defined_def ex_log_def int32_def
        MAXOPBLOCKS_def LOGSIZE_def)
  have r: "begin_op [ex_log 0 0] (ex_log 5 3) ex_world =
      Inr (Returned (ex_log 0 1), ex_world\<lparr>trace := [Acquire, Sleep, Release]\<rparr>)"
    by (simp add: begin_op_def ex_log_def ex_world_def emit_def int32_def
        MAXOPBLOCKS_def LOGSIZE_def)
  show ?thesis
    using begin_op_reservation [of "[ex_log 0 0]" "ex_log 5 3" ex_world "ex_log 0 1"
        "ex_world\<lparr>trace := [Acquire, Sleep, Release]\<rparr>"]
      begin_op_reservation [of "[]" "ex_log 5 3" ex_world] a r
    by simp
qed

text \<open>
  Claim C3. A transaction starts with \<open>lh.n = 0\<close>. After any sequence of
  \<^verbatim>\<open>log_write\<close> calls that all return, the entries \<open>lh.block[0..lh.n)\<close> are pairwise
  distinct, they are the block numbers written, and their count is \<open>lh.n\<close>. One more
  call with a block number already among them leaves \<^verbatim>\<open>logV\<close> as it is (absorption);
  with a new block number it appends the number at index \<open>lh.n\<close> and adds one to
  \<open>lh.n\<close>.
\<close>

theorem log_write_absorption:
  assumes "lh_n (log_lh l0) = 0" "log_writes bs l0 w0 = Inr (l, w)"
  shows "distinct (logged l) \<and> set (logged l) = snd ` set bs \<and>
     int (card (snd ` set bs)) = sint (lh_n (log_lh l)) \<and>
     int (length (logged l)) = sint (lh_n (log_lh l)) \<and>
     (\<forall>b l' w'. log_write b l w = Inr (l', w') \<longrightarrow>
        (snd b \<in> set (logged l) \<longrightarrow> l' = l) \<and>
        (snd b \<notin> set (logged l) \<longrightarrow>
           logged l' = logged l @ [snd b] \<and>
           sint (lh_n (log_lh l')) = sint (lh_n (log_lh l)) + 1))"
proof -
  have i: "0 \<le> sint (lh_n (log_lh l))" "distinct (logged l)" "set (logged l) = snd ` set bs"
    using log_writes_inv [OF _ _ assms(2)] assms(1) by (simp_all add: logged_empty)
  have n: "int (length (logged l)) = sint (lh_n (log_lh l))"
    using i(1) by (simp add: logged_def logged_n_def)
  have c: "card (snd ` set bs) = length (logged l)"
    using distinct_card [OF i(2)] i(3) by simp
  have st: "(snd b \<in> set (logged l) \<longrightarrow> l' = l) \<and>
        (snd b \<notin> set (logged l) \<longrightarrow>
           logged l' = logged l @ [snd b] \<and>
           sint (lh_n (log_lh l')) = sint (lh_n (log_lh l)) + 1)"
    if "log_write b l w = Inr (l', w')" for b l' w'
    using log_write_step [OF i(1) that] by blast
  show ?thesis
    using i(2,3) n c st by (simp only: simp_thms) blast
qed

text \<open>
Instance of C3, scenario S2 with a second block: writes of blocks 100, 101 and 100 again.
\<close>

theorem log_write_absorption_witness:
  "lh_n (log_lh (ex_log 0 1)) = 0 \<and>
   (\<exists>l w. log_writes [(1, 100), (1, 101), (1, 100)] (ex_log 0 1) ex_world = Inr (l, w) \<and>
      distinct (logged l) \<and> set (logged l) = {100, 101} \<and> sint (lh_n (log_lh l)) = 2)"
proof -
  have z: "lh_n (log_lh (ex_log 0 1)) = 0" by (simp add: ex_log_def)
  obtain l w where
    r: "log_writes [(1, 100), (1, 101), (1, 100)] (ex_log 0 1) ex_world = Inr (l, w)"
    using ex_log_writes by blast
  have s: "snd ` set [(1, 100), (1, 101), (1, 100 :: 32 word) :: addr] = {100, 101}"
    by auto
  have c: "card {100, 101 :: 32 word} = 2"
    by simp
  have "distinct (logged l) \<and> set (logged l) = {100, 101} \<and> sint (lh_n (log_lh l)) = 2"
    using log_write_absorption [OF z r] unfolding s c by simp
  then show ?thesis using z r by blast
qed

text \<open>
  Claim C4. When \<^verbatim>\<open>commit\<close> runs with \<open>lh.n > 0\<close> on a log whose home blocks lie
  outside the log region, it returns with \<open>lh.n = 0\<close>, and what it did to the block
  layer is exactly \<open>commit_events\<close>: for each \<open>i\<close> below \<open>lh.n\<close> in turn the write of
  the cached contents of home block \<open>lh.block[i]\<close> to log slot \<open>start + i + 1\<close>; then
  the write of the header with \<open>n = lh.n\<close> and the logged block numbers; then for each
  \<open>i\<close> in turn the write of the same contents to the home block, with its unpin; then
  the write of the header with \<open>n = 0\<close>.
\<close>

theorem commit_sequence:
  assumes "log_sound l" "0 < sint (lh_n (log_lh l))" "held w = {}"
  shows "\<exists>w'. commit l w = Inr (clear_n l, w') \<and> trace w' = trace w @ commit_events l w"
  using commit_returns [OF assms] commit_world_trace [OF assms(1)] by simp

text \<open>
Instance of C4: a transaction of the two blocks 100 and 101.
\<close>

theorem commit_sequence_witness:
  "log_sound (ex_log 2 1) \<and> 0 < sint (lh_n (log_lh (ex_log 2 1))) \<and> held ex_world = {} \<and>
   commit_events (ex_log 2 1) ex_world =
     [Bread (1, 3), Bread (1, 100), Bwrite (1, 3) (\<lambda>i. 0), Brelse (1, 100), Brelse (1, 3),
      Bread (1, 4), Bread (1, 101), Bwrite (1, 4) (\<lambda>i. 0), Brelse (1, 101), Brelse (1, 4),
      Bread (1, 2), Bwrite (1, 2) (\<lambda>i. if i = 0 then 2 else if i = 1 then 100 else if i = 2 then 101 else 0), Brelse (1, 2),
      Bread (1, 3), Bread (1, 100), Bwrite (1, 100) (\<lambda>i. 0), Bunpin (1, 100), Brelse (1, 3), Brelse (1, 100),
      Bread (1, 4), Bread (1, 101), Bwrite (1, 101) (\<lambda>i. 0), Bunpin (1, 101), Brelse (1, 4), Brelse (1, 101),
      Bread (1, 2), Bwrite (1, 2) (\<lambda>i. if i = 0 then 0 else if i = 1 then 100 else if i = 2 then 101 else 0), Brelse (1, 2)] \<and>
   (\<exists>w'. commit (ex_log 2 1) ex_world = Inr (clear_n (ex_log 2 1), w') \<and>
      trace w' = trace ex_world @ commit_events (ex_log 2 1) ex_world)"
proof -
  have n: "logged_n (ex_log 2 1) = 2" by (simp add: logged_n_def ex_log_def)
  have s: "log_sound (ex_log 2 1)"
    unfolding log_sound_def homes_def slots_def n upt2
    by (simp add: home_addr_def slot_addr_def head_addr_def ex_log_def LOGSIZE_def int32_def)
  have p: "0 < sint (lh_n (log_lh (ex_log 2 1)))" by (simp add: ex_log_def)
  have h: "held ex_world = {}" by (simp add: ex_world_def)
  have e: "commit_events (ex_log 2 1) ex_world =
     [Bread (1, 3), Bread (1, 100), Bwrite (1, 3) (\<lambda>i. 0), Brelse (1, 100), Brelse (1, 3),
      Bread (1, 4), Bread (1, 101), Bwrite (1, 4) (\<lambda>i. 0), Brelse (1, 101), Brelse (1, 4),
      Bread (1, 2), Bwrite (1, 2) (\<lambda>i. if i = 0 then 2 else if i = 1 then 100 else if i = 2 then 101 else 0), Brelse (1, 2),
      Bread (1, 3), Bread (1, 100), Bwrite (1, 100) (\<lambda>i. 0), Bunpin (1, 100), Brelse (1, 3), Brelse (1, 100),
      Bread (1, 4), Bread (1, 101), Bwrite (1, 101) (\<lambda>i. 0), Bunpin (1, 101), Brelse (1, 4), Brelse (1, 101),
      Bread (1, 2), Bwrite (1, 2) (\<lambda>i. if i = 0 then 0 else if i = 1 then 100 else if i = 2 then 101 else 0), Brelse (1, 2)]"
    unfolding commit_events_def n upt2
    by (auto simp: write_log_events_def install_events_def head_events_def
        head_block_def clear_n_def logged_n_def
        home_addr_def slot_addr_def head_addr_def ex_log_def ex_world_def bdata_def fun_eq_iff)
  show ?thesis
    using commit_sequence [OF s p h] s p h e by simp
qed

text \<open>
  Claim C5. Recovery is idempotent: whenever \<^verbatim>\<open>recover_from_log\<close> returns, from any
  log state and any state of disk and cache, running it again from what it left returns
  too, with the same log state and the same disk.
\<close>

theorem recover_idempotent:
  "recover_from_log l w = Inr (l1, w1) \<Longrightarrow>
     \<exists>w2. recover_from_log l1 w1 = Inr (l1, w2) \<and> disk w2 = disk w1"
proof -
  assume r: "recover_from_log l w = Inr (l1, w1)"
  let ?l1 = "read_header l (bdata w (head_addr l))"
  from r have h: "head_addr l \<notin> held w" and l1: "l1 = clear_n ?l1" and w1: "w1 = recover_world l w"
    by (simp_all add: recover_iff)
  have ha: "head_addr l1 = head_addr l" by (simp add: l1)
  have z: "bdata w1 (head_addr l1) 0 = 0"
    unfolding ha w1 by (rule recover_world_head_0)
  have rh: "read_header l1 (bdata w1 (head_addr l1)) = l1"
    unfolding l1 using z [unfolded l1] by (rule read_header_clear)
  have "recover_from_log l1 w1 = Inr (l1, recover_world l1 w1)"
    unfolding recover_iff
  proof (intro conjI)
    show "head_addr l1 \<notin> held w1" using h by (simp add: ha w1)
    show "0 < sint (bdata w1 (head_addr l1) 0) \<longrightarrow> head_fits (bdata w1 (head_addr l1) 0)"
      by (simp add: z)
    show "\<forall>i < nat (sint (bdata w1 (head_addr l1) 0)).
        loop_guard (read_header l1 (bdata w1 (head_addr l1))) i w1 = None"
      by (simp add: z)
    show "l1 = clear_n (read_header l1 (bdata w1 (head_addr l1)))"
      unfolding rh by (simp add: l1)
  qed simp
  moreover have "disk (recover_world l1 w1) = disk w1"
  proof -
    have b: "bdata w1 (head_addr l1) = head_block l1 (bdata w1 (head_addr l1))"
    proof -
      have "bdata w1 (head_addr l1) = head_block (clear_n ?l1) (bdata
          (fold (install_step 1 ?l1) [0..<logged_n ?l1] (read_head_step l w)) (head_addr l))"
        unfolding w1 recover_world_def Let_def ha by (simp add: bdata_write_head_step)
      then show ?thesis
        unfolding l1 by (metis head_block_idem)
    qed
    have d: "disk w1 (head_addr l1) = bdata w1 (head_addr l1)"
      unfolding ha w1 by (rule recover_world_disk_head)
    have "disk (recover_world l1 w1) a = disk w1 a" for a
      using b d
      by (simp add: recover_world_def Let_def rh disk_write_head_step)
         (simp add: l1)
    then show ?thesis by (simp add: fun_eq_iff)
  qed
  ultimately show ?thesis by blast
qed

text \<open>
Instance of C5: boot on a disk whose header commits block 100, with log slot 1 full of
  sevens; the first recovery installs the block, the second changes nothing.
\<close>

theorem recover_idempotent_witness:
  "\<exists>l1 w1. recover_from_log (ex_log 0 0) (reboot ex_disk) = Inr (l1, w1) \<and>
      disk w1 (1, 100) = (\<lambda>i. 7) \<and>
      (\<exists>w2. recover_from_log l1 w1 = Inr (l1, w2) \<and> disk w2 = disk w1)"
  using recover_idempotent [OF ex_recover] ex_recover ex_recover_home by blast

text \<open>
  Claim C6. \<^verbatim>\<open>log_write\<close> returns normally exactly when none of \<open>lh.n \<ge> LOGSIZE\<close>,
  \<open>lh.n \<ge> size - 1\<close> and \<open>outstanding < 1\<close> holds at entry; and, wherever C gives
  \<^verbatim>\<open>logV.size - 1\<close> a value, it panics exactly when one of the three holds.
\<close>

theorem log_write_panic_iff:
  "((\<exists>l' w'. log_write b l w = Inr (l', w')) \<longleftrightarrow>
      \<not> (LOGSIZE \<le> sint (lh_n (log_lh l)) \<or> sint (log_size l) - 1 \<le> sint (lh_n (log_lh l))
         \<or> sint (log_outstanding l) < 1)) \<and>
   (int32 (sint (log_size l) - 1) \<longrightarrow>
     ((\<exists>msg. log_write b l w = Inl (Panic msg)) \<longleftrightarrow>
      (LOGSIZE \<le> sint (lh_n (log_lh l)) \<or> sint (log_size l) - 1 \<le> sint (lh_n (log_lh l))
         \<or> sint (log_outstanding l) < 1)))"
proof -
  have lo: "- 2147483648 \<le> sint (lh_n (log_lh l))"
    using int32_sint [of "lh_n (log_lh l)"] by (simp add: int32_def)
  have hi: "sint (log_size l) \<le> 2147483647"
    using int32_sint [of "log_size l"] by (simp add: int32_def)
  show ?thesis
    using lo hi by (auto simp: log_write_def Let_def bpin_def int32_def)
qed

text \<open>
Instance of C6: a first write inside a transaction returns; a write outside a
  transaction and a write to a full log panic.
\<close>

theorem log_write_panic_iff_witness:
  "int32 (sint (log_size (ex_log 0 1)) - 1) \<and>
   (\<exists>l' w'. log_write (1, 100) (ex_log 0 1) ex_world = Inr (l', w')) \<and>
   (\<exists>msg. log_write (1, 100) (ex_log 0 0) ex_world = Inl (Panic msg)) \<and>
   (\<exists>msg. log_write (1, 100) (ex_log 30 1) ex_world = Inl (Panic msg))"
  using log_write_panic_iff [of "(1, 100)" "ex_log 0 1" ex_world]
    log_write_panic_iff [of "(1, 100)" "ex_log 0 0" ex_world]
    log_write_panic_iff [of "(1, 100)" "ex_log 30 1" ex_world]
  by (simp add: ex_log_def int32_def LOGSIZE_def)



text \<open>
  Claim C8. When \<open>lh.n = 0\<close>, \<^verbatim>\<open>commit\<close> returns the log state and the world as they
  were: no field of \<^verbatim>\<open>logV\<close> changes, and no block is read or written (the world
  records every call to the block layer).
\<close>

theorem commit_empty:
  "sint (lh_n (log_lh l)) = 0 \<Longrightarrow> commit l w = Inr (l, w)"
  by (simp add: commit_def)

text \<open>
Instance of C8: the idle log.
\<close>

theorem commit_empty_witness:
  "sint (lh_n (log_lh (ex_log 0 0))) = 0 \<and> commit (ex_log 0 0) ex_world = Inr (ex_log 0 0, ex_world)"
  using commit_empty [of "ex_log 0 0" ex_world] by (simp add: ex_log_def)



text \<open>
  Claim C10. In a transaction (starting with \<open>lh.n = 0\<close>) the \<^verbatim>\<open>log_write\<close> calls
  pin one buffer for each logged block number, in the order of \<open>lh.block\<close>, and unpin
  nothing; one more call pins its buffer exactly when the block number is new.
  \<^verbatim>\<open>install_trans(0)\<close> unpins the buffer of each logged block once, in the same
  order, and pins nothing; \<^verbatim>\<open>install_trans\<close> with a non-zero argument pins and unpins
  nothing. So does their caller: every \<^verbatim>\<open>commit\<close> that returns has unpinned the buffer
  of each logged block exactly once and pinned nothing, and every \<^verbatim>\<open>recover_from_log\<close>
  and every \<^verbatim>\<open>initlog\<close> that returns has pinned and unpinned nothing. Over the whole
  transaction, from its first \<^verbatim>\<open>log_write\<close> to the return of \<^verbatim>\<open>commit\<close>, or of the
  \<^verbatim>\<open>end_op\<close> of its last system call, the block numbers pinned are the block numbers
  unpinned, each once; when the written buffers are on the log's device, the buffers
  pinned are exactly the buffers unpinned.
\<close>

theorem pin_unpin_balance:
  assumes "lh_n (log_lh l0) = 0" "log_writes bs l0 w0 = Inr (l, w)"
  shows "(\<exists>es. trace w = trace w0 @ es \<and> unpinned es = [] \<and> set (pinned es) \<subseteq> set bs \<and>
          map snd (pinned es) = logged l \<and> distinct (map snd (pinned es)) \<and>
          ((\<forall>b \<in> set bs. fst b = log_dev l) \<longrightarrow> pinned es = map (Pair (log_dev l)) (logged l))) \<and>
     (\<forall>b l' w'. log_write b l w = Inr (l', w') \<longrightarrow>
        (\<exists>es'. trace w' = trace w @ es' \<and> unpinned es' = [] \<and>
           pinned es' = (if snd b \<in> set (logged l) then [] else [b]))) \<and>
     (\<forall>w2 w'. install_trans 0 l w2 = Inr w' \<longrightarrow>
        (\<exists>es'. trace w' = trace w2 @ es' \<and> pinned es' = [] \<and>
           unpinned es' = map (Pair (log_dev l)) (logged l))) \<and>
     (\<forall>r lr w2 w'. r \<noteq> 0 \<longrightarrow> install_trans r lr w2 = Inr w' \<longrightarrow>
        (\<exists>es'. trace w' = trace w2 @ es' \<and> pinned es' = [] \<and> unpinned es' = [])) \<and>
     (\<forall>lc w2 l' w'. commit lc w2 = Inr (l', w') \<longrightarrow>
        (\<exists>es'. trace w' = trace w2 @ es' \<and> pinned es' = [] \<and>
           unpinned es' = map (Pair (log_dev lc)) (logged lc))) \<and>
     (\<forall>l' w'. commit l w = Inr (l', w') \<longrightarrow>
        (\<exists>es. trace w' = trace w0 @ es \<and> map snd (pinned es) = map snd (unpinned es) \<and>
           distinct (map snd (unpinned es)) \<and>
           ((\<forall>b \<in> set bs. fst b = log_dev l) \<longrightarrow> pinned es = unpinned es))) \<and>
     (\<forall>l' w'. sint (log_outstanding l) = 1 \<longrightarrow> end_op l w = Inr (l', w') \<longrightarrow>
        (\<exists>es. trace w' = trace w0 @ es \<and> map snd (pinned es) = map snd (unpinned es) \<and>
           distinct (map snd (unpinned es)) \<and>
           ((\<forall>b \<in> set bs. fst b = log_dev l) \<longrightarrow> pinned es = unpinned es))) \<and>
     (\<forall>lr w2 l' w'. recover_from_log lr w2 = Inr (l', w') \<longrightarrow>
        (\<exists>es'. trace w' = trace w2 @ es' \<and> pinned es' = [] \<and> unpinned es' = [])) \<and>
     (\<forall>dev sb lr w2 l' w'. initlog dev sb lr w2 = Inr (l', w') \<longrightarrow>
        (\<exists>es'. trace w' = trace w2 @ es' \<and> pinned es' = [] \<and> unpinned es' = []))"
proof -
  from log_writes_inv [OF _ _ assms(2)] assms(1) obtain es where
    i: "0 \<le> sint (lh_n (log_lh l))" "distinct (logged l)"
      "trace w = trace w0 @ es" "unpinned es = []" "set (pinned es) \<subseteq> set bs"
      "logged l = map snd (pinned es)"
    by (auto simp: logged_empty)
  have dev: "pinned es = map (Pair (log_dev l)) (logged l)" if "\<forall>b \<in> set bs. fst b = log_dev l"
  proof -
    from that have "\<forall>b \<in> set (pinned es). b = (log_dev l, snd b)"
      using i(5) by (auto simp: prod_eq_iff)
    then have "map (\<lambda>b. (log_dev l, snd b)) (pinned es) = pinned es"
      by (simp add: map_idI)
    then show ?thesis
      by (simp add: i(6) comp_def)
  qed
  have c1: "\<exists>es. trace w = trace w0 @ es \<and> unpinned es = [] \<and> set (pinned es) \<subseteq> set bs \<and>
          map snd (pinned es) = logged l \<and> distinct (map snd (pinned es)) \<and>
          ((\<forall>b \<in> set bs. fst b = log_dev l) \<longrightarrow> pinned es = map (Pair (log_dev l)) (logged l))"
    using i dev by auto
  have c2: "\<exists>es'. trace w' = trace w @ es' \<and> unpinned es' = [] \<and>
           pinned es' = (if snd b \<in> set (logged l) then [] else [b])"
    if a: "log_write b l w = Inr (l', w')" for b l' w'
  proof (cases "snd b \<in> set (logged l)")
    case True
    then show ?thesis
      using log_write_step(1) [OF i(1) a] by (intro exI [of _ "[Acquire, Release]"]) simp
  next
    case False
    then show ?thesis
      using log_write_step(2) [OF i(1) a] by (intro exI [of _ "[Acquire, Bpin b, Release]"]) simp
  qed
  have c3: "\<exists>es'. trace w' = trace w2 @ es' \<and> pinned es' = [] \<and>
           unpinned es' = map (Pair (log_dev l)) (logged l)"
    if "install_trans 0 l w2 = Inr w'" for w2 w'
    using install_trans_trace [OF that] by (auto simp: homes_logged)
  have c4: "\<exists>es'. trace w' = trace w2 @ es' \<and> pinned es' = [] \<and> unpinned es' = []"
    if "r \<noteq> 0" "install_trans r lr w2 = Inr w'" for r lr w2 w'
    using that install_trans_trace [of r lr w2 w'] by auto
  have c5: "\<exists>es'. trace w' = trace w2 @ es' \<and> pinned es' = [] \<and>
           unpinned es' = map (Pair (log_dev lc)) (logged lc)"
    if "commit lc w2 = Inr (l', w')" for lc w2 l' w'
    using commit_trace [OF that] by (auto simp: homes_logged)
  have bal: "\<exists>es3. trace w3 = trace w0 @ es3 \<and> map snd (pinned es3) = map snd (unpinned es3) \<and>
           distinct (map snd (unpinned es3)) \<and>
           ((\<forall>b \<in> set bs. fst b = log_dev l) \<longrightarrow> pinned es3 = unpinned es3)"
    if t: "trace w3 = trace w @ ea @ es' @ eb" "pinned ea = []" "unpinned ea = []"
      "pinned eb = []" "unpinned eb = []" "pinned es' = []"
      "unpinned es' = map (Pair (log_dev l)) (logged l)" for w3 ea es' eb
  proof (intro exI [of _ "es @ ea @ es' @ eb"] conjI impI)
    show "trace w3 = trace w0 @ es @ ea @ es' @ eb" by (simp add: t(1) i(3))
    show "map snd (pinned (es @ ea @ es' @ eb)) = map snd (unpinned (es @ ea @ es' @ eb))"
      by (simp add: t i(4) i(6) [symmetric] comp_def)
    show "distinct (map snd (unpinned (es @ ea @ es' @ eb)))"
      using i(2) by (simp add: t i(4) comp_def)
    assume "\<forall>b \<in> set bs. fst b = log_dev l"
    then show "pinned (es @ ea @ es' @ eb) = unpinned (es @ ea @ es' @ eb)"
      using dev by (simp add: t i(4))
  qed
  have c6: "\<exists>es. trace w' = trace w0 @ es \<and> map snd (pinned es) = map snd (unpinned es) \<and>
           distinct (map snd (unpinned es)) \<and>
           ((\<forall>b \<in> set bs. fst b = log_dev l) \<longrightarrow> pinned es = unpinned es)"
    if "commit l w = Inr (l', w')" for l' w'
  proof -
    from c5 [OF that] obtain es' where "trace w' = trace w @ es'" "pinned es' = []"
        "unpinned es' = map (Pair (log_dev l)) (logged l)" by blast
    then show ?thesis using bal [of w' "[]" es' "[]"] by simp
  qed
  have c7: "\<exists>es. trace w' = trace w0 @ es \<and> map snd (pinned es) = map snd (unpinned es) \<and>
           distinct (map snd (unpinned es)) \<and>
           ((\<forall>b \<in> set bs. fst b = log_dev l) \<longrightarrow> pinned es = unpinned es)"
    if "sint (log_outstanding l) = 1" "end_op l w = Inr (l', w')" for l' w'
  proof -
    let ?L = "l\<lparr>log_outstanding := 0, log_committing := 1\<rparr>"
    from end_op_commits [OF that] obtain l2 w2 where
      c: "commit ?L (w\<lparr>trace := trace w @ [Acquire, Release]\<rparr>) = Inr (l2, w2)"
        "w' = w2\<lparr>trace := trace w2 @ [Acquire, Wakeup, Release]\<rparr>" by blast
    have lg: "logged ?L = logged l" by (simp add: logged_def logged_n_def)
    from c5 [OF c(1)] obtain es' where "trace w2 = trace w @ [Acquire, Release] @ es'"
        "pinned es' = []" "unpinned es' = map (Pair (log_dev l)) (logged l)"
      by (auto simp: lg)
    then show ?thesis
      using bal [of w' "[Acquire, Release]" es' "[Acquire, Wakeup, Release]"] by (simp add: c(2))
  qed
  have c8: "\<exists>es'. trace w' = trace w2 @ es' \<and> pinned es' = [] \<and> unpinned es' = []"
    if "recover_from_log lr w2 = Inr (l', w')" for lr w2 l' w'
    using recover_trace [OF that] by blast
  have c9: "\<exists>es'. trace w' = trace w2 @ es' \<and> pinned es' = [] \<and> unpinned es' = []"
    if "initlog dev sb lr w2 = Inr (l', w')" for dev sb lr w2 l' w'
    using that c8 by (auto simp: initlog_def split: if_splits)
  show ?thesis
    using c1 c2 c3 c4 c5 c6 c7 c8 c9 by (simp only: simp_thms) blast
qed

text \<open>
Instance of C10: writes of blocks 100, 101 and 100 again pin the buffers of 100 and 101
  once each; \<^verbatim>\<open>commit\<close>, alone or from \<^verbatim>\<open>end_op\<close>, unpins the two; the recovery
  that installs block 100 from the log unpins nothing.
\<close>

theorem pin_unpin_balance_witness:
  "lh_n (log_lh (ex_log 0 1)) = 0 \<and>
   (\<exists>l w es. log_writes [(1, 100), (1, 101), (1, 100)] (ex_log 0 1) ex_world = Inr (l, w) \<and>
      trace w = trace ex_world @ es \<and> pinned es = [(1, 100), (1, 101)] \<and> unpinned es = [] \<and>
      (\<exists>l' w' es'. commit l w = Inr (l', w') \<and> trace w' = trace w @ es' \<and>
         pinned es' = [] \<and> unpinned es' = [(1, 100), (1, 101)]) \<and>
      (\<exists>l' w' es2. end_op l w = Inr (l', w') \<and> trace w' = trace ex_world @ es2 \<and>
         pinned es2 = [(1, 100), (1, 101)] \<and> unpinned es2 = [(1, 100), (1, 101)])) \<and>
   (\<exists>l1 w1 es. recover_from_log (ex_log 0 0) (reboot ex_disk) = Inr (l1, w1) \<and>
      disk w1 (1, 100) = (\<lambda>i. 7) \<and> trace w1 = trace (reboot ex_disk) @ es \<and>
      pinned es = [] \<and> unpinned es = [])"
proof -
  let ?bs = "[(1, 100), (1, 101), (1, 100)] :: addr list"
  let ?w = "ex_world\<lparr>trace := [Acquire, Bpin (1, 100), Release,
        Acquire, Bpin (1, 101), Release, Acquire, Release]\<rparr>"
  let ?L = "(ex_log 2 1)\<lparr>log_outstanding := 0, log_committing := 1\<rparr>"
  let ?W = "?w\<lparr>trace := trace ?w @ [Acquire, Release]\<rparr>"
  have z: "lh_n (log_lh (ex_log 0 1)) = 0" by (simp add: ex_log_def)
  note r = ex_log_writes_val
  note th = pin_unpin_balance [OF z r]
  note th1 = th [THEN conjunct1]
  note th5 = th [THEN conjunct2, THEN conjunct2, THEN conjunct2, THEN conjunct2, THEN conjunct1]
  note th7 = th [THEN conjunct2, THEN conjunct2, THEN conjunct2, THEN conjunct2,
      THEN conjunct2, THEN conjunct2, THEN conjunct1]
  note th8 = th [THEN conjunct2, THEN conjunct2, THEN conjunct2, THEN conjunct2,
      THEN conjunct2, THEN conjunct2, THEN conjunct2, THEN conjunct1]
  have dv: "\<forall>b \<in> set ?bs. fst b = log_dev (ex_log 2 1)" by (simp add: ex_log_def)
  have lg: "map (Pair (log_dev (ex_log 2 1))) (logged (ex_log 2 1)) = [(1, 100), (1, 101)]"
      "map (Pair (log_dev ?L)) (logged ?L) = [(1, 100), (1, 101)]"
    by (simp_all add: logged_def logged_n_def ex_log_def upt2)
  from th1 dv obtain es where es: "trace ?w = trace ex_world @ es" "unpinned es = []"
      "pinned es = [(1, 100), (1, 101)]"
    unfolding lg by blast
  have c: "commit (ex_log 2 1) ?w = Inr (clear_n (ex_log 2 1), commit_world (ex_log 2 1) ?w)"
    by (rule commit_returns) (simp_all add: ex_log_sound, simp_all add: ex_log_def ex_world_def)
  from th5 [rule_format, OF c] obtain es' where
    es': "trace (commit_world (ex_log 2 1) ?w) = trace ?w @ es'" "pinned es' = []"
      "unpinned es' = map (Pair (log_dev (ex_log 2 1))) (logged (ex_log 2 1))"
    by blast
  have cc: "commit ?L ?W = Inr (clear_n ?L, commit_world ?L ?W)"
    by (rule commit_returns) (simp_all add: ex_log_sound2, simp_all add: ex_log_def ex_world_def)
  from th5 [rule_format, OF cc] obtain esc where esc: "trace (commit_world ?L ?W) = trace ?W @ esc" "pinned esc = []"
    by blast
  have e: "end_op (ex_log 2 1) ?w = Inr ((clear_n ?L)\<lparr>log_committing := 0\<rparr>,
      (commit_world ?L ?W)\<lparr>trace := trace (commit_world ?L ?W) @ [Acquire, Wakeup, Release]\<rparr>)"
    using cc by (simp add: end_op_def int32_def emit_def ex_log_def)
  have t0: "trace ex_world = []" by (simp add: ex_world_def)
  have o: "sint (log_outstanding (ex_log 2 1)) = 1" by (simp add: ex_log_def)
  from th7 o e dv obtain es2 where es2:
      "trace ((commit_world ?L ?W)\<lparr>trace := trace (commit_world ?L ?W) @ [Acquire, Wakeup, Release]\<rparr>)
         = trace ex_world @ es2"
      "pinned es2 = unpinned es2"
    by blast
  have "es2 = trace ?w @ [Acquire, Release] @ esc @ [Acquire, Wakeup, Release]"
    using es2(1) esc(1) by (simp add: t0)
  then have p2: "pinned es2 = [(1, 100), (1, 101)]"
    by (simp add: esc(2))
  from th8 ex_recover obtain er where er:
      "trace (recover_world (ex_log 0 0) (reboot ex_disk)) = trace (reboot ex_disk) @ er"
      "pinned er = []" "unpinned er = []"
    by blast
  have A: "\<exists>l' w' es'. commit (ex_log 2 1) ?w = Inr (l', w') \<and> trace w' = trace ?w @ es' \<and>
         pinned es' = [] \<and> unpinned es' = [(1, 100), (1, 101)]"
    using c es' unfolding lg by blast
  have B: "\<exists>l' w' es2. end_op (ex_log 2 1) ?w = Inr (l', w') \<and> trace w' = trace ex_world @ es2 \<and>
         pinned es2 = [(1, 100), (1, 101)] \<and> unpinned es2 = [(1, 100), (1, 101)]"
    using e es2 p2 by (intro exI [of _ es2] exI conjI) (assumption, simp_all)
  have C: "\<exists>l1 w1 es. recover_from_log (ex_log 0 0) (reboot ex_disk) = Inr (l1, w1) \<and>
      disk w1 (1, 100) = (\<lambda>i. 7) \<and> trace w1 = trace (reboot ex_disk) @ es \<and>
      pinned es = [] \<and> unpinned es = []"
    using ex_recover ex_recover_home er by blast
  have D: "\<exists>l w es. log_writes ?bs (ex_log 0 1) ex_world = Inr (l, w) \<and>
      trace w = trace ex_world @ es \<and> pinned es = [(1, 100), (1, 101)] \<and> unpinned es = [] \<and>
      (\<exists>l' w' es'. commit l w = Inr (l', w') \<and> trace w' = trace w @ es' \<and>
         pinned es' = [] \<and> unpinned es' = [(1, 100), (1, 101)]) \<and>
      (\<exists>l' w' es2. end_op l w = Inr (l', w') \<and> trace w' = trace ex_world @ es2 \<and>
         pinned es2 = [(1, 100), (1, 101)] \<and> unpinned es2 = [(1, 100), (1, 101)])"
    using r es A B by blast
  show ?thesis using z C D by blast
qed

end
